theory Spec2Isabelle
  imports Main "HOL-Library.Word" "HOL-Library.Log_Nat"
begin

unbundle bit_operations_syntax

section \<open>Python values, exceptions and effects\<close>

text \<open>
  The exceptions the two modules \<^verbatim>\<open>utils/windows_capture.py\<close> and
  \<^verbatim>\<open>utils/windows_input.py\<close> can raise. \<open>Win32Error\<close> is
  \<^verbatim>\<open>pywintypes.error\<close> (a window call on a handle that is not a live window),
  \<open>ScreenShotError\<close> is the exception of the capture library.
\<close>

datatype py_error =
    OSError
  | ImportError
  | ValueError
  | IndexError
  | ZeroDivisionError
  | OverflowError
  | FrozenInstanceError
  | Win32Error
  | ScreenShotError


text \<open>
  The \<^verbatim>\<open>ctypes\<close> structures of the input module. \<^verbatim>\<open>c_long\<close> and
  \<^verbatim>\<open>c_ulong\<close> are 32 bits wide on Windows; \<^verbatim>\<open>dwExtraInfo\<close> has the size of a
  pointer, 64 bits on a 64-bit interpreter.
\<close>

record MOUSEINPUT =
  dx :: "32 word"
  dy :: "32 word"
  mouseData :: "32 word"
  dwFlags :: "32 word"
  time :: "32 word"
  dwExtraInfo :: "64 word"

text \<open>
  \<^verbatim>\<open>INPUT\<close> holds a type tag and a union; the code only ever fills the member
  \<^verbatim>\<open>mi\<close> of the union, so the union is that member.
\<close>

record INPUT =
  type' :: "32 word"
  mi :: MOUSEINPUT

text \<open>The dictionary \<^verbatim>\<open>{"left", "top", "width", "height"}\<close> handed to the grabber.\<close>

record monitor =
  mon_left :: int
  mon_top :: int
  mon_width :: int
  mon_height :: int

text \<open>
  A numpy array of shape (H, W, C) of unsigned bytes: rows of pixels of channel samples.
  A plane is an array of shape (H, W).
\<close>

type_synonym ndarray = "8 word list list list"
type_synonym plane = "8 word list list"

datatype call =
    SetProcessDpiAwareness int
  | SetProcessDPIAware
  | EnumWindows
  | IsWindowVisible int
  | GetWindowText int
  | ClientToScreen int "int \<times> int"
  | GetClientRect int
  | GetWindowRect int
  | Monitors
  | Grab monitor
  | GetSystemMetrics int
  | SendInput "INPUT list"
  | Sleep rat

text \<open>
  A function of the source that can raise or touch the operating system is a program: it
  takes the world (the state of the operating system and the list of platform calls made
  so far, oldest first) and returns an exception or a value, with the world it leaves.
  An exception keeps the effects made before it was raised.
\<close>

record 'os world =
  os :: 'os
  trace :: "call list"

type_synonym ('a, 'os) prog = "'os world \<Rightarrow> (py_error + 'a) \<times> 'os world"

definition py_return :: "'a \<Rightarrow> ('a, 'os) prog" where
  "py_return x = (\<lambda>w. (Inr x, w))"

definition py_raise :: "py_error \<Rightarrow> ('a, 'os) prog" where
  "py_raise e = (\<lambda>w. (Inl e, w))"

definition py_bind :: "('a, 'os) prog \<Rightarrow> ('a \<Rightarrow> ('b, 'os) prog) \<Rightarrow> ('b, 'os) prog" where
  "py_bind m f = (\<lambda>w. case m w of (Inl e, w') \<Rightarrow> (Inl e, w') | (Inr x, w') \<Rightarrow> f x w')"

text \<open>\<^verbatim>\<open>try: m  except Exception: h\<close>: the handler runs in the world the failure left.\<close>

definition py_try :: "('a, 'os) prog \<Rightarrow> ('a, 'os) prog \<Rightarrow> ('a, 'os) prog" where
  "py_try m h = (\<lambda>w. case m w of (Inl e, w') \<Rightarrow> h w' | (Inr x, w') \<Rightarrow> (Inr x, w'))"

text \<open>A computation that touches nothing: it only returns or raises.\<close>

definition lift :: "py_error + 'a \<Rightarrow> ('a, 'os) prog" where
  "lift r = (\<lambda>w. (r, w))"

text \<open>\<^verbatim>\<open>for x in xs: body(x)\<close>: the first exception ends the loop.\<close>

primrec py_for :: "'a list \<Rightarrow> ('a \<Rightarrow> (unit, 'os) prog) \<Rightarrow> (unit, 'os) prog" where
  "py_for [] body = py_return ()"
| "py_for (x # xs) body = py_bind (body x) (\<lambda>_. py_for xs body)"

text \<open>
  A platform call: it is recorded in the trace, and the platform's answer and new state
  are taken. \<open>syscall_opt\<close> is a call that raises \<open>e\<close> where the platform answers
  \<open>None\<close>.
\<close>

definition syscall :: "call \<Rightarrow> ('os \<Rightarrow> 'a \<times> 'os) \<Rightarrow> ('a, 'os) prog" where
  "syscall c f = (\<lambda>w. case f (os w) of (x, s) \<Rightarrow> (Inr x, \<lparr>os = s, trace = trace w @ [c]\<rparr>))"

definition syscall_opt :: "py_error \<Rightarrow> call \<Rightarrow> ('os \<Rightarrow> 'a option \<times> 'os) \<Rightarrow> ('a, 'os) prog" where
  "syscall_opt e c f = (\<lambda>w. case f (os w) of
       (None, s) \<Rightarrow> (Inl e, \<lparr>os = s, trace = trace w @ [c]\<rparr>)
     | (Some x, s) \<Rightarrow> (Inr x, \<lparr>os = s, trace = trace w @ [c]\<rparr>))"

text \<open>
  A Python string is the list of its Unicode code points. \<open>str\<close> reads a literal of
  ASCII characters as such a string.
\<close>

type_synonym py_str = "nat list"

definition str :: "string \<Rightarrow> py_str" where
  "str s = map of_char s"

text \<open>
  What the operating system and the installed libraries answer. Every call may change
  the state \<open>'os\<close> of the system. An answer \<open>None\<close> is a call that raises.
  The character database of the interpreter is part of it: \<open>str_lower_at s i\<close> is
  the lower-case image of the character at position \<open>i\<close> of \<open>s\<close>, one character
  or more (given as the first and the rest), which may depend on the neighbours of the
  character as it does for the capital sigma; \<open>str_isspace\<close> says which characters
  are whitespace.
\<close>

record 'os platform =
  os_name :: string
  has_ctypes :: bool
  has_pywin32 :: bool
  has_mss :: bool
  str_lower_at :: "py_str \<Rightarrow> nat \<Rightarrow> nat \<times> nat list"
  str_isspace :: "nat \<Rightarrow> bool"
  set_process_dpi_awareness :: "int \<Rightarrow> 'os \<Rightarrow> int option \<times> 'os"
  set_process_dpi_aware :: "'os \<Rightarrow> int option \<times> 'os"
  enum_windows :: "'os \<Rightarrow> int list option \<times> 'os"
  is_window_visible :: "int \<Rightarrow> 'os \<Rightarrow> bool \<times> 'os"
  get_window_text :: "int \<Rightarrow> 'os \<Rightarrow> py_str \<times> 'os"
  client_to_screen :: "int \<Rightarrow> int \<times> int \<Rightarrow> 'os \<Rightarrow> (int \<times> int) option \<times> 'os"
  get_client_rect :: "int \<Rightarrow> 'os \<Rightarrow> (int \<times> int \<times> int \<times> int) option \<times> 'os"
  get_window_rect_os :: "int \<Rightarrow> 'os \<Rightarrow> (int \<times> int \<times> int \<times> int) option \<times> 'os"
  monitors :: "'os \<Rightarrow> monitor list \<times> 'os"
  grab :: "monitor \<Rightarrow> 'os \<Rightarrow> ndarray option \<times> 'os"
  get_system_metrics :: "int \<Rightarrow> 'os \<Rightarrow> int \<times> 'os"
  send_input :: "INPUT list \<Rightarrow> 'os \<Rightarrow> unit \<times> 'os"
  sleep :: "rat \<Rightarrow> 'os \<Rightarrow> unit \<times> 'os"

section \<open>utils/windows\_capture.py\<close>

subsection \<open>Rect\<close>

text \<open>
  \<^verbatim>\<open>@dataclass(frozen=True) class Rect\<close>: four Python integers. The field
  \<^verbatim>\<open>top\<close> is written \<open>top'\<close>, since \<open>top\<close> is a constant of HOL.
\<close>

record Rect =
  left :: int
  top' :: int
  right :: int
  bottom :: int

definition width :: "Rect \<Rightarrow> int" where
  "width r = max 0 (right r - left r)"

definition height :: "Rect \<Rightarrow> int" where
  "height r = max 0 (bottom r - top' r)"

text \<open>
  A frozen dataclass replaces \<^verbatim>\<open>__setattr__\<close> and \<^verbatim>\<open>__delattr__\<close> by
  methods that raise \<^verbatim>\<open>FrozenInstanceError\<close> whatever the field and the value:
  no assignment returns an updated rectangle.
\<close>

definition Rect_setattr :: "Rect \<Rightarrow> string \<Rightarrow> int \<Rightarrow> py_error + Rect" where
  "Rect_setattr r name v = Inl FrozenInstanceError"

definition Rect_delattr :: "Rect \<Rightarrow> string \<Rightarrow> py_error + Rect" where
  "Rect_delattr r name = Inl FrozenInstanceError"

subsection \<open>Display awareness\<close>

text \<open>
  \<^verbatim>\<open>_try_set_dpi_awareness\<close>. The inner \<^verbatim>\<open>try\<close> around the per-monitor call
  ends the function with \<^verbatim>\<open>return\<close> when the call does not raise; its value here
  says whether that \<^verbatim>\<open>return\<close> was reached. The results of the two calls are
  discarded by the code.
\<close>

definition import_module :: "bool \<Rightarrow> (unit, 'os) prog" where
  "import_module present = (if present then py_return () else py_raise ImportError)"

definition try_set_dpi_awareness :: "'os platform \<Rightarrow> (unit, 'os) prog" where
  "try_set_dpi_awareness P =
     py_try
       (py_bind (import_module (has_ctypes P)) (\<lambda>_.
        py_bind
          (py_try
             (py_bind (syscall_opt OSError (SetProcessDpiAwareness 2) (set_process_dpi_awareness P 2))
                (\<lambda>_. py_return True))
             (py_return False))
          (\<lambda>returned.
             if returned then py_return ()
             else py_try
                    (py_bind (syscall_opt OSError SetProcessDPIAware (set_process_dpi_aware P))
                       (\<lambda>_. py_return ()))
                    (py_return ()))))
       (py_return ())"

definition is_windows :: "'os platform \<Rightarrow> bool" where
  "is_windows P = (os_name P = ''nt'')"

definition require_windows :: "'os platform \<Rightarrow> (unit, 'os) prog" where
  "require_windows P = (if \<not> is_windows P then py_raise OSError else py_return ())"

definition require_pywin32 :: "'os platform \<Rightarrow> (unit, 'os) prog" where
  "require_pywin32 P = py_try (import_module (has_pywin32 P)) (py_raise ImportError)"

subsection \<open>Window directory\<close>

text \<open>
  \<^verbatim>\<open>str.lower\<close> replaces every character of the string, from the first to the last,
  by its lower-case image in the character database, and \<^verbatim>\<open>str.strip\<close> removes the
  characters that the database calls whitespace at both ends. Neither fixes an alphabet:
  which characters have which image is the answer of the platform.
\<close>

definition lower :: "'os platform \<Rightarrow> py_str \<Rightarrow> py_str" where
  "lower P s = concat (map (\<lambda>i. case str_lower_at P s i of (c, cs) \<Rightarrow> c # cs) [0..<length s])"

definition strip :: "'os platform \<Rightarrow> py_str \<Rightarrow> py_str" where
  "strip P s = rev (dropWhile (str_isspace P) (rev (dropWhile (str_isspace P) s)))"

text \<open>\<^verbatim>\<open>q in t\<close> on strings: \<open>q\<close> occurs in \<open>t\<close> as a contiguous run.\<close>

definition startswith :: "py_str \<Rightarrow> py_str \<Rightarrow> bool" where
  "startswith t q = (take (length q) t = q)"

fun py_in :: "py_str \<Rightarrow> py_str \<Rightarrow> bool" where
  "py_in q [] = (q = [])"
| "py_in q (c # t) = (startswith (c # t) q \<or> py_in q t)"

text \<open>
  \<^verbatim>\<open>list_visible_windows\<close>: \<^verbatim>\<open>EnumWindows\<close> runs the handler on every top-level
  window, in the order of the enumeration; the handler keeps the visible windows whose
  stripped title is not empty.
\<close>

definition enum_handler :: "'os platform \<Rightarrow> int \<Rightarrow> ((int \<times> py_str) list, 'os) prog" where
  "enum_handler P hwnd =
     py_bind (syscall (IsWindowVisible hwnd) (is_window_visible P hwnd)) (\<lambda>visible.
       if \<not> visible then py_return []
       else py_bind (syscall (GetWindowText hwnd) (get_window_text P hwnd)) (\<lambda>text.
         let title = (if text \<noteq> [] then text else []);
             title = strip P title
         in if title = [] then py_return [] else py_return [(hwnd, title)]))"

primrec enum_loop :: "'os platform \<Rightarrow> int list \<Rightarrow> (int \<times> py_str) list \<Rightarrow> ((int \<times> py_str) list, 'os) prog" where
  "enum_loop P [] results = py_return results"
| "enum_loop P (hwnd # hwnds) results =
     py_bind (enum_handler P hwnd) (\<lambda>added. enum_loop P hwnds (results @ added))"

definition list_visible_windows :: "'os platform \<Rightarrow> ((int \<times> py_str) list, 'os) prog" where
  "list_visible_windows P =
     py_bind (require_windows P) (\<lambda>_.
     py_bind (try_set_dpi_awareness P) (\<lambda>_.
     py_bind (require_pywin32 P) (\<lambda>_.
     py_bind (syscall_opt Win32Error EnumWindows (enum_windows P)) (\<lambda>hwnds.
       enum_loop P hwnds []))))"

text \<open>\<^verbatim>\<open>find_window_hwnd\<close>: \<open>norm'\<close> is its inner function \<^verbatim>\<open>norm\<close>.\<close>

definition norm' :: "'os platform \<Rightarrow> bool \<Rightarrow> py_str \<Rightarrow> py_str" where
  "norm' P case_sensitive s = (if case_sensitive then s else lower P s)"

fun find_loop :: "'os platform \<Rightarrow> bool \<Rightarrow> bool \<Rightarrow> py_str \<Rightarrow> (int \<times> py_str) list \<Rightarrow> int option" where
  "find_loop P exact case_sensitive q [] = None"
| "find_loop P exact case_sensitive q ((hwnd, title) # windows) =
     (let t = norm' P case_sensitive title in
      if exact \<and> t = q then Some hwnd
      else if \<not> exact \<and> py_in q t then Some hwnd
      else find_loop P exact case_sensitive q windows)"

definition find_window_hwnd :: "'os platform \<Rightarrow> py_str \<Rightarrow> bool \<Rightarrow> bool \<Rightarrow> (int option, 'os) prog" where
  "find_window_hwnd P title_query exact case_sensitive =
     py_bind (list_visible_windows P) (\<lambda>windows.
       let q = norm' P case_sensitive title_query
       in py_return (find_loop P exact case_sensitive q windows))"

subsection \<open>Geometry\<close>

definition get_window_rect :: "'os platform \<Rightarrow> int \<Rightarrow> bool \<Rightarrow> (Rect, 'os) prog" where
  "get_window_rect P hwnd client_area =
     py_bind (require_windows P) (\<lambda>_.
     py_bind (try_set_dpi_awareness P) (\<lambda>_.
     py_bind (require_pywin32 P) (\<lambda>_.
       if client_area then
         py_bind (syscall_opt Win32Error (ClientToScreen hwnd (0, 0)) (client_to_screen P hwnd (0, 0)))
           (\<lambda>left_top.
         py_bind (syscall_opt Win32Error (GetClientRect hwnd) (get_client_rect P hwnd))
           (\<lambda>(c0, c1, c2, c3).
             let width = c2 - c0;
                 height = c3 - c1;
                 (left, top) = left_top
             in py_return \<lparr>left = left, top' = top, right = left + width, bottom = top + height\<rparr>))
       else
         py_bind (syscall_opt Win32Error (GetWindowRect hwnd) (get_window_rect_os P hwnd))
           (\<lambda>(left, top, right, bottom).
             py_return \<lparr>left = left, top' = top, right = right, bottom = bottom\<rparr>))))"

subsection \<open>Frame grabber\<close>

text \<open>
  \<^verbatim>\<open>capture_rect_bgra\<close>: the grabber is asked for the rectangle's left, top, width
  and height; it raises when the capture library is missing or the grab fails. The
  opening and closing of the capture context and the import of \<^verbatim>\<open>numpy\<close>, which
  the source does not guard, are taken to succeed.
\<close>

definition capture_rect_bgra :: "'os platform \<Rightarrow> Rect \<Rightarrow> (ndarray, 'os) prog" where
  "capture_rect_bgra P rect =
     py_bind (py_try (import_module (has_mss P)) (py_raise ImportError)) (\<lambda>_.
       let monitor = \<lparr>mon_left = left rect, mon_top = top' rect,
                      mon_width = width rect, mon_height = height rect\<rparr>
       in syscall_opt ScreenShotError (Grab monitor) (grab P monitor))"

text \<open>
  \<^verbatim>\<open>frame[..., k]\<close> takes channel \<open>k\<close> of every pixel and raises
  \<^verbatim>\<open>IndexError\<close> when the last axis is too short; \<^verbatim>\<open>np.stack(.., axis=-1)\<close>
  puts three planes of one shape side by side, and raises \<^verbatim>\<open>ValueError\<close> on
  planes of different shapes.
\<close>

definition take_channel :: "nat \<Rightarrow> ndarray \<Rightarrow> py_error + plane" where
  "take_channel k frame =
     (if \<exists>row \<in> set frame. \<exists>p \<in> set row. length p \<le> k then Inl IndexError
      else Inr (map (map (\<lambda>p. p ! k)) frame))"

definition stack_last :: "plane \<Rightarrow> plane \<Rightarrow> plane \<Rightarrow> py_error + ndarray" where
  "stack_last r g b =
     (if map length r = map length g \<and> map length g = map length b
      then Inr (map (\<lambda>(rr, gr, br). map (\<lambda>(x, y, z). [x, y, z]) (zip rr (zip gr br)))
                  (zip r (zip g b)))
      else Inl ValueError)"

definition bgra_to_rgb :: "ndarray option \<Rightarrow> py_error + ndarray" where
  "bgra_to_rgb frame_bgra =
     (case frame_bgra of
        None \<Rightarrow> Inl ValueError
      | Some frame \<Rightarrow>
          (case take_channel 0 frame of Inl e \<Rightarrow> Inl e | Inr b \<Rightarrow>
          (case take_channel 1 frame of Inl e \<Rightarrow> Inl e | Inr g \<Rightarrow>
          (case take_channel 2 frame of Inl e \<Rightarrow> Inl e | Inr r \<Rightarrow>
             stack_last r g b))))"

definition capture_window_rgb :: "'os platform \<Rightarrow> int \<Rightarrow> bool \<Rightarrow> (ndarray, 'os) prog" where
  "capture_window_rgb P hwnd client_area =
     py_bind (get_window_rect P hwnd client_area) (\<lambda>rect.
     py_bind (capture_rect_bgra P rect) (\<lambda>frame_bgra.
       lift (bgra_to_rgb (Some frame_bgra))))"

text \<open>
  \<^verbatim>\<open>capture_fullscreen_rgb\<close>: the list of monitors is read once (the capture
  library caches it), the index is checked against it, and only then is the grab made.
\<close>

definition capture_fullscreen_rgb :: "'os platform \<Rightarrow> int \<Rightarrow> (ndarray, 'os) prog" where
  "capture_fullscreen_rgb P monitor_index =
     py_bind (py_try (import_module (has_mss P)) (py_raise ImportError)) (\<lambda>_.
     py_bind (syscall Monitors (monitors P)) (\<lambda>sct_monitors.
       if monitor_index < 0 \<or> monitor_index \<ge> int (length sct_monitors)
       then py_raise ValueError
       else
         py_bind (syscall_opt ScreenShotError (Grab (sct_monitors ! nat monitor_index))
                    (grab P (sct_monitors ! nat monitor_index))) (\<lambda>frame_bgra.
           lift (bgra_to_rgb (Some frame_bgra)))))"

section \<open>Python floats\<close>

text \<open>
  A finite Python float is a rational number. An arithmetic operation on floats returns
  the exact result rounded to the nearest double, ties to the even significand
  (IEEE 754 binary64: 53 bits of significand, gradual underflow below \<open>2 powi - 1022\<close>).
  \<open>float_exponent x\<close> is the exponent \<open>e\<close> with \<open>2 powi e \<le> \<bar>x\<bar> < 2 powi (e + 1)\<close>,
  \<open>ulp x\<close> the spacing of the doubles around \<open>x\<close>, \<open>fl x\<close> the double nearest to
  \<open>x\<close>. A rounded result of magnitude \<open>2 ^ 1024\<close> or more is not a finite double.
\<close>

definition round_half_even :: "rat \<Rightarrow> int" where
  "round_half_even x =
     (let f = \<lfloor>x\<rfloor>; d = x - of_int f
      in if d < 1 / 2 then f else if 1 / 2 < d then f + 1 else if even f then f else f + 1)"

definition float_exponent :: "rat \<Rightarrow> int" where
  "float_exponent x =
     (if 1 \<le> \<bar>x\<bar> then int (floorlog 2 (nat \<lfloor>\<bar>x\<bar>\<rfloor>)) - 1
      else - int (floorlog 2 (nat (\<lceil>1 / \<bar>x\<bar>\<rceil> - 1))))"

definition ulp :: "rat \<Rightarrow> rat" where
  "ulp x = 2 powi (max (float_exponent x) (- 1022) - 52)"

definition fl :: "rat \<Rightarrow> rat" where
  "fl x = (if x = 0 then 0 else of_int (round_half_even (x / ulp x)) * ulp x)"

definition float_overflow :: "rat \<Rightarrow> bool" where
  "float_overflow r = (2 ^ 1024 \<le> \<bar>r\<bar>)"

text \<open>
  \<^verbatim>\<open>float(n)\<close> of an integer, as the mixed operators \<^verbatim>\<open>int * float\<close>,
  \<^verbatim>\<open>int + float\<close> and \<^verbatim>\<open>float / int\<close> apply it: the nearest double, and
  \<^verbatim>\<open>OverflowError\<close> when the integer is too large.
\<close>

definition int_to_float :: "int \<Rightarrow> py_error + rat" where
  "int_to_float n =
     (let r = fl (of_int n) in if float_overflow r then Inl OverflowError else Inr r)"

text \<open>
  \<^verbatim>\<open>a / b\<close> on two integers: the correctly rounded quotient; division by zero and
  a quotient too large for a float raise.
\<close>

definition int_truediv :: "int \<Rightarrow> int \<Rightarrow> py_error + rat" where
  "int_truediv a b =
     (if b = 0 then Inl ZeroDivisionError
      else let r = fl (of_int a / of_int b)
           in if float_overflow r then Inl OverflowError else Inr r)"

text \<open>
  The result of an operation on floats. Where the rounded result is too large, Python
  yields an infinity and does not raise; in the two modules every such value goes on, in
  the same expression, into \<^verbatim>\<open>int(..)\<close>, which raises \<^verbatim>\<open>OverflowError\<close> on an
  infinity. The exception is therefore placed at the operation.
\<close>

definition float_result :: "rat \<Rightarrow> py_error + rat" where
  "float_result x = (let r = fl x in if float_overflow r then Inl OverflowError else Inr r)"

text \<open>\<^verbatim>\<open>int(x)\<close> of a finite float: truncation toward zero.\<close>

definition py_int :: "rat \<Rightarrow> int" where
  "py_int x = (if 0 \<le> x then \<lfloor>x\<rfloor> else \<lceil>x\<rceil>)"

text \<open>\<^verbatim>\<open>d / n\<close> of a float by an integer.\<close>

definition float_div_int :: "rat \<Rightarrow> int \<Rightarrow> py_error + rat" where
  "float_div_int d n =
     (case int_to_float n of
        Inl e \<Rightarrow> Inl e
      | Inr nf \<Rightarrow> if nf = 0 then Inl ZeroDivisionError else float_result (d / nf))"

section \<open>utils/windows\_input.py\<close>

definition INPUT_MOUSE :: "32 word" where "INPUT_MOUSE = 0"
definition MOUSEEVENTF_MOVE :: "32 word" where "MOUSEEVENTF_MOVE = 0x0001"
definition MOUSEEVENTF_LEFTDOWN :: "32 word" where "MOUSEEVENTF_LEFTDOWN = 0x0002"
definition MOUSEEVENTF_LEFTUP :: "32 word" where "MOUSEEVENTF_LEFTUP = 0x0004"
definition MOUSEEVENTF_RIGHTDOWN :: "32 word" where "MOUSEEVENTF_RIGHTDOWN = 0x0008"
definition MOUSEEVENTF_RIGHTUP :: "32 word" where "MOUSEEVENTF_RIGHTUP = 0x0010"
definition MOUSEEVENTF_ABSOLUTE :: "32 word" where "MOUSEEVENTF_ABSOLUTE = 0x8000"

text \<open>\<^verbatim>\<open>_send_input\<close>: the value \<^verbatim>\<open>SendInput\<close> returns is not looked at.\<close>

definition send_input' :: "'os platform \<Rightarrow> INPUT list \<Rightarrow> (unit, 'os) prog" where
  "send_input' P inputs = syscall (SendInput inputs) (send_input P inputs)"

definition get_screen_size :: "'os platform \<Rightarrow> (int \<times> int, 'os) prog" where
  "get_screen_size P =
     py_bind (syscall (GetSystemMetrics 0) (get_system_metrics P 0)) (\<lambda>m0.
     py_bind (syscall (GetSystemMetrics 1) (get_system_metrics P 1)) (\<lambda>m1.
       py_return (m0, m1)))"

definition to_absolute_coords :: "'os platform \<Rightarrow> int \<Rightarrow> int \<Rightarrow> (int \<times> int, 'os) prog" where
  "to_absolute_coords P x y =
     py_bind (get_screen_size P) (\<lambda>(width, height).
     py_bind (lift (int_truediv (x * 65535) width)) (\<lambda>qx.
     py_bind (lift (int_truediv (y * 65535) height)) (\<lambda>qy.
       let abs_x = py_int qx;
           abs_y = py_int qy
       in py_return (abs_x, abs_y))))"

text \<open>
  \<^verbatim>\<open>move_mouse\<close>. The fields \<^verbatim>\<open>dx\<close> and \<^verbatim>\<open>dy\<close> are C longs of 32 bits:
  \<^verbatim>\<open>ctypes\<close> keeps the low 32 bits of the Python integer, without a check.
\<close>

definition move_mouse :: "'os platform \<Rightarrow> int \<Rightarrow> int \<Rightarrow> (unit, 'os) prog" where
  "move_mouse P x y =
     py_bind (to_absolute_coords P x y) (\<lambda>(abs_x, abs_y).
       let mi = \<lparr>dx = word_of_int abs_x, dy = word_of_int abs_y, mouseData = 0,
                 dwFlags = MOUSEEVENTF_MOVE OR MOUSEEVENTF_ABSOLUTE, time = 0, dwExtraInfo = 0\<rparr>;
           inp = \<lparr>type' = INPUT_MOUSE, mi = mi\<rparr>
       in send_input' P [inp])"

definition mouse_down :: "'os platform \<Rightarrow> bool \<Rightarrow> (unit, 'os) prog" where
  "mouse_down P left' =
     (let flags = (if left' then MOUSEEVENTF_LEFTDOWN else MOUSEEVENTF_RIGHTDOWN);
          mi = \<lparr>dx = 0, dy = 0, mouseData = 0, dwFlags = flags, time = 0, dwExtraInfo = 0\<rparr>;
          inp = \<lparr>type' = INPUT_MOUSE, mi = mi\<rparr>
      in send_input' P [inp])"

definition mouse_up :: "'os platform \<Rightarrow> bool \<Rightarrow> (unit, 'os) prog" where
  "mouse_up P left' =
     (let flags = (if left' then MOUSEEVENTF_LEFTUP else MOUSEEVENTF_RIGHTUP);
          mi = \<lparr>dx = 0, dy = 0, mouseData = 0, dwFlags = flags, time = 0, dwExtraInfo = 0\<rparr>;
          inp = \<lparr>type' = INPUT_MOUSE, mi = mi\<rparr>
      in send_input' P [inp])"

text \<open>
  \<^verbatim>\<open>time.sleep\<close> raises \<^verbatim>\<open>ValueError\<close> on a negative length. Lengths are
  taken to be in the range of the system timer: the \<^verbatim>\<open>OverflowError\<close> of a length
  beyond it is not modelled.
\<close>

definition time_sleep :: "'os platform \<Rightarrow> rat \<Rightarrow> (unit, 'os) prog" where
  "time_sleep P secs = (if secs < 0 then py_raise ValueError else syscall (Sleep secs) (sleep P secs))"

definition click_at :: "'os platform \<Rightarrow> int \<Rightarrow> int \<Rightarrow> rat \<Rightarrow> (unit, 'os) prog" where
  "click_at P x y duration =
     py_bind (move_mouse P x y) (\<lambda>_.
     py_bind (time_sleep P (fl (1 / 50))) (\<lambda>_.
     py_bind (mouse_down P True) (\<lambda>_.
     py_bind (time_sleep P duration) (\<lambda>_.
       mouse_up P True))))"

text \<open>
  \<^verbatim>\<open>drag\<close>. \<open>drag_steps\<close> is \<^verbatim>\<open>max(10, int(duration * 60))\<close>;
  \<open>interpolate start end t\<close> is \<^verbatim>\<open>int(start + (end - start) * t)\<close>, where the
  difference is an integer, the product and the sum are floats; \<open>drag_waypoint\<close> is
  the pair \<^verbatim>\<open>(curr_x, curr_y)\<close> of step \<open>i\<close>, with \<^verbatim>\<open>t = (i + 1) / steps\<close>.
\<close>

definition drag_steps :: "rat \<Rightarrow> py_error + int" where
  "drag_steps duration =
     (case float_result (duration * 60) of
        Inl e \<Rightarrow> Inl e
      | Inr r \<Rightarrow> Inr (max 10 (py_int r)))"

definition interpolate :: "int \<Rightarrow> int \<Rightarrow> rat \<Rightarrow> py_error + int" where
  "interpolate start end' t =
     (case int_to_float (end' - start) of Inl e \<Rightarrow> Inl e | Inr d \<Rightarrow>
     (case float_result (d * t) of Inl e \<Rightarrow> Inl e | Inr p \<Rightarrow>
     (case int_to_float start of Inl e \<Rightarrow> Inl e | Inr s \<Rightarrow>
     (case float_result (s + p) of Inl e \<Rightarrow> Inl e | Inr v \<Rightarrow>
        Inr (py_int v)))))"

definition drag_waypoint :: "int \<Rightarrow> int \<Rightarrow> int \<Rightarrow> int \<Rightarrow> int \<Rightarrow> int \<Rightarrow> py_error + (int \<times> int)" where
  "drag_waypoint start_x start_y end_x end_y steps i =
     (case int_truediv (i + 1) steps of Inl e \<Rightarrow> Inl e | Inr t \<Rightarrow>
     (case interpolate start_x end_x t of Inl e \<Rightarrow> Inl e | Inr curr_x \<Rightarrow>
     (case interpolate start_y end_y t of Inl e \<Rightarrow> Inl e | Inr curr_y \<Rightarrow>
        Inr (curr_x, curr_y))))"

definition drag_body :: "'os platform \<Rightarrow> int \<Rightarrow> int \<Rightarrow> int \<Rightarrow> int \<Rightarrow> rat \<Rightarrow> int \<Rightarrow> int \<Rightarrow> (unit, 'os) prog" where
  "drag_body P start_x start_y end_x end_y duration steps i =
     py_bind (lift (drag_waypoint start_x start_y end_x end_y steps i)) (\<lambda>(curr_x, curr_y).
     py_bind (move_mouse P curr_x curr_y) (\<lambda>_.
     py_bind (lift (float_div_int duration steps)) (\<lambda>pause.
       time_sleep P pause)))"

definition drag :: "'os platform \<Rightarrow> int \<Rightarrow> int \<Rightarrow> int \<Rightarrow> int \<Rightarrow> rat \<Rightarrow> (unit, 'os) prog" where
  "drag P start_x start_y end_x end_y duration =
     py_bind (move_mouse P start_x start_y) (\<lambda>_.
     py_bind (time_sleep P (fl (1 / 20))) (\<lambda>_.
     py_bind (mouse_down P True) (\<lambda>_.
     py_bind (time_sleep P (fl (1 / 20))) (\<lambda>_.
     py_bind (lift (drag_steps duration)) (\<lambda>steps.
     py_bind (py_for (map int [0..<nat steps])
                (drag_body P start_x start_y end_x end_y duration steps)) (\<lambda>_.
     py_bind (move_mouse P end_x end_y) (\<lambda>_.
     py_bind (time_sleep P (fl (1 / 20))) (\<lambda>_.
       mouse_up P True))))))))"

section \<open>Definitions that follow the specification\<close>

text \<open>
  \<open>FindWindow\<close> as the specification words it, for a given lower-casing of strings:
  the query and every title are normalized, which lower-cases them when the comparison
  is not case sensitive and leaves them as they are when it is; an entry matches when its
  normalized title equals the normalized query (exact) or contains it as a substring;
  the result is the handle of the first matching entry.
\<close>

definition FindWindow_normalize :: "(py_str \<Rightarrow> py_str) \<Rightarrow> bool \<Rightarrow> py_str \<Rightarrow> py_str" where
  "FindWindow_normalize lowercase caseSensitive s = (if caseSensitive then s else lowercase s)"

definition FindWindow_matches :: "(py_str \<Rightarrow> py_str) \<Rightarrow> bool \<Rightarrow> bool \<Rightarrow> py_str \<Rightarrow> py_str \<Rightarrow> bool" where
  "FindWindow_matches lowercase exact caseSensitive q title =
     (if exact
      then FindWindow_normalize lowercase caseSensitive title
             = FindWindow_normalize lowercase caseSensitive q
      else (\<exists>ps ss. FindWindow_normalize lowercase caseSensitive title
                       = ps @ FindWindow_normalize lowercase caseSensitive q @ ss))"

definition FindWindow_spec :: "(py_str \<Rightarrow> py_str) \<Rightarrow> (int \<times> py_str) list \<Rightarrow> py_str \<Rightarrow> bool \<Rightarrow> bool \<Rightarrow> int option" where
  "FindWindow_spec lowercase windows q exact caseSensitive =
     map_option fst (find (\<lambda>e. FindWindow_matches lowercase exact caseSensitive q (snd e)) windows)"


text \<open>
  \<open>CaptureRect\<close> and \<open>CaptureWindow\<close> as the specification words them: the capture of
  a rectangle followed by the reordering of the channels, and the resolution of the
  rectangle followed by \<open>CaptureRect\<close>.
\<close>

definition CaptureRect_spec :: "'os platform \<Rightarrow> Rect \<Rightarrow> (ndarray, 'os) prog" where
  "CaptureRect_spec P rect =
     py_bind (capture_rect_bgra P rect) (\<lambda>frame. lift (bgra_to_rgb (Some frame)))"

definition CaptureWindow_spec :: "'os platform \<Rightarrow> int \<Rightarrow> bool \<Rightarrow> (ndarray, 'os) prog" where
  "CaptureWindow_spec P handle clientArea =
     py_bind (get_window_rect P handle clientArea) (CaptureRect_spec P)"

text \<open>
  The quotient of two integers rounded toward zero, as the specification states the
  conversion of a pixel coordinate.
\<close>

definition toward_zero :: "int \<Rightarrow> int \<Rightarrow> int" where
  "toward_zero a b = sgn a * sgn b * (\<bar>a\<bar> div \<bar>b\<bar>)"


text \<open>
  \<open>Drag\<close> as the specification words it: the ordered sequence of pointer actions, and
  an executor that performs them one after the other and stops at the first that raises.
  \<open>Drag_script\<close> is the sequence for given waypoints and pause: move to the start, wait,
  press, wait, then a move and a pause per waypoint, then the corrective move to the end,
  a wait, and the release. \<open>pointer_after\<close> is the pixel position the pointer was last
  moved to.
\<close>

datatype action = MoveTo int int | Wait rat | ButtonDown | ButtonUp

fun perform :: "'os platform \<Rightarrow> action \<Rightarrow> (unit, 'os) prog" where
  "perform P (MoveTo x y) = move_mouse P x y"
| "perform P (Wait secs) = time_sleep P secs"
| "perform P ButtonDown = mouse_down P True"
| "perform P ButtonUp = mouse_up P True"

definition perform_all :: "'os platform \<Rightarrow> action list \<Rightarrow> (unit, 'os) prog" where
  "perform_all P actions = py_for actions (perform P)"

definition Drag_script :: "int \<Rightarrow> int \<Rightarrow> int \<Rightarrow> int \<Rightarrow> (int \<times> int) list \<Rightarrow> rat \<Rightarrow> action list" where
  "Drag_script startX startY endX endY waypoints pause =
     [MoveTo startX startY, Wait (fl (1 / 20)), ButtonDown, Wait (fl (1 / 20))]
     @ concat (map (\<lambda>(x, y). [MoveTo x y, Wait pause]) waypoints)
     @ [MoveTo endX endY, Wait (fl (1 / 20)), ButtonUp]"

primrec pointer_after :: "(int \<times> int) option \<Rightarrow> action list \<Rightarrow> (int \<times> int) option" where
  "pointer_after p [] = p"
| "pointer_after p (a # actions) =
     pointer_after (case a of MoveTo x y \<Rightarrow> Some (x, y) | _ \<Rightarrow> p) actions"


section \<open>An example platform\<close>

text \<open>
  A small platform on which the functions are run. The state of the system is the display
  awareness of the process (0 unset, 1 system, 2 per monitor), which can be set once:
  a later call returns an error code and changes nothing. There are three visible
  windows, a 1920 by 1080 screen, and a grabber that returns one row of two pixels whose
  only non-zero colour channel is blue. Its character database is that of the first 256
  code points: the capital letters \<^verbatim>\<open>A..Z\<close> and the accented capitals 192 to 222
  (but not the multiplication sign, 215) have the lower-case image 32 places further,
  every other character is its own image, and the whitespace is 9 to 13, 28 to 32, 133
  and 160. \<open>legacy_platform\<close> is the same system without the per-monitor call,
  which raises there; \<open>refusing_platform\<close> is the same system with a per-monitor
  call that refuses its argument: it returns the error code \<^verbatim>\<open>E_INVALIDARG\<close> and
  changes nothing; \<open>counting_platform\<close> is the same system with a state that counts
  the per-monitor calls it has received; and \<open>accent_platform\<close> is the same system
  with one window, whose title starts with an accented capital.
\<close>

definition demo_platform :: "nat platform" where
  "demo_platform = \<lparr>
     os_name = ''nt'', has_ctypes = True, has_pywin32 = True, has_mss = True,
     str_lower_at = (\<lambda>s i. (let c = s ! i in
        if (65 \<le> c \<and> c \<le> 90) \<or> (192 \<le> c \<and> c \<le> 222 \<and> c \<noteq> 215) then c + 32 else c, [])),
     str_isspace = (\<lambda>c. (9 \<le> c \<and> c \<le> 13) \<or> (28 \<le> c \<and> c \<le> 32) \<or> c = 133 \<or> c = 160),
     set_process_dpi_awareness = (\<lambda>v s. if s = 0 then (Some 0, nat v) else (Some (- 2147024891), s)),
     set_process_dpi_aware = (\<lambda>s. if s = 0 then (Some 1, 1) else (Some 0, s)),
     enum_windows = (\<lambda>s. (Some [100, 200, 300], s)),
     is_window_visible = (\<lambda>h s. (True, s)),
     get_window_text = (\<lambda>h s. (if h = 100 then str ''Foo'' else if h = 200 then str ''FooBar ''
                                  else str ''Baz'', s)),
     client_to_screen = (\<lambda>h p s. (if h = 100 then Some (8, 31) else None, s)),
     get_client_rect = (\<lambda>h s. (if h = 100 then Some (0, 0, 2, 1) else None, s)),
     get_window_rect_os = (\<lambda>h s. (if h = 100 then Some (0, 0, 18, 40) else None, s)),
     monitors = (\<lambda>s. ([\<lparr>mon_left = 0, mon_top = 0, mon_width = 2, mon_height = 1\<rparr>,
                        \<lparr>mon_left = 0, mon_top = 0, mon_width = 2, mon_height = 1\<rparr>], s)),
     grab = (\<lambda>m s. (Some [[[255, 0, 0, 255], [7, 0, 0, 255]]], s)),
     get_system_metrics = (\<lambda>i s. (if i = 0 then 1920 else 1080, s)),
     send_input = (\<lambda>inputs s. ((), s)),
     sleep = (\<lambda>d s. ((), s)) \<rparr>"




definition accent_platform :: "nat platform" where
  "accent_platform = demo_platform \<lparr>enum_windows := (\<lambda>s. (Some [400], s)),
     get_window_text := (\<lambda>h s. ([201, 99, 114, 97, 110], s))\<rparr>"

definition demo_world :: "nat world" where
  "demo_world = \<lparr>os = 0, trace = []\<rparr>"

section \<open>Properties of Rect\<close>

text \<open>
  C5. For every Rect, also one built with \<open>right < left\<close> or \<open>bottom < top\<close>, the
  derived width is \<open>max 0 (right - left)\<close> and the derived height is
  \<open>max 0 (bottom - top)\<close>; neither is ever negative, a reversed pair of edges gives 0,
  and the value is immutable: every attribute assignment or deletion raises and yields
  no rectangle.
\<close>

theorem Rect_width_height_nonneg:
  "width r = max 0 (right r - left r) \<and> height r = max 0 (bottom r - top' r)
   \<and> 0 \<le> width r \<and> 0 \<le> height r
   \<and> (if right r < left r then width r = 0 else width r = right r - left r)
   \<and> (if bottom r < top' r then height r = 0 else height r = bottom r - top' r)
   \<and> Rect_setattr r name v = Inl FrozenInstanceError
   \<and> Rect_delattr r name = Inl FrozenInstanceError"
  by (simp add: width_def height_def Rect_setattr_def Rect_delattr_def)

theorem Rect_width_height_nonneg_witness:
  "width \<lparr>left = 10, top' = 20, right = 4, bottom = 50\<rparr> = 0
   \<and> height \<lparr>left = 10, top' = 20, right = 4, bottom = 50\<rparr> = 30"
  using Rect_width_height_nonneg [of "\<lparr>left = 10, top' = 20, right = 4, bottom = 50\<rparr>"]
  by simp

section \<open>Window lookup\<close>

lemma startswith_iff: "startswith t q \<longleftrightarrow> (\<exists>ss. t = q @ ss)"
  unfolding startswith_def
  by (metis append_eq_conv_conj append_take_drop_id)

lemma py_in_iff: "py_in q t \<longleftrightarrow> (\<exists>ps ss. t = ps @ q @ ss)"
proof (induction t)
  case Nil
  show ?case by auto
next
  case (Cons c t)
  show ?case
  proof
    assume "py_in q (c # t)"
    then consider "startswith (c # t) q" | "py_in q t" by auto
    then show "\<exists>ps ss. c # t = ps @ q @ ss"
    proof cases
      case 1
      then obtain ss where "c # t = q @ ss" by (auto simp: startswith_iff)
      then have "c # t = [] @ q @ ss" by simp
      then show ?thesis by blast
    next
      case 2
      then obtain ps ss where "t = ps @ q @ ss" using Cons.IH by blast
      then have "c # t = (c # ps) @ q @ ss" by simp
      then show ?thesis by blast
    qed
  next
    assume "\<exists>ps ss. c # t = ps @ q @ ss"
    then obtain ps ss where eq: "c # t = ps @ q @ ss" by blast
    show "py_in q (c # t)"
    proof (cases ps)
      case Nil
      with eq have "startswith (c # t) q" by (auto simp: startswith_iff)
      then show ?thesis by simp
    next
      case (Cons p ps')
      with eq have "t = ps' @ q @ ss" by simp
      then have "py_in q t" using Cons.IH by blast
      then show ?thesis by simp
    qed
  qed
qed

lemma norm'_normalize: "norm' P cs s = FindWindow_normalize (lower P) cs s"
  by (simp add: norm'_def FindWindow_normalize_def)

lemma find_loop_spec:
  "find_loop P exact cs (norm' P cs q) windows = FindWindow_spec (lower P) windows q exact cs"
proof (induction windows)
  case Nil
  show ?case by (simp add: FindWindow_spec_def)
next
  case (Cons e windows)
  obtain hwnd title where e: "e = (hwnd, title)" by (cases e)
  show ?case
  proof (cases "FindWindow_matches (lower P) exact cs q title")
    case True
    then show ?thesis
      unfolding e
      by (cases exact)
        (simp_all add: FindWindow_spec_def FindWindow_matches_def py_in_iff norm'_normalize)
  next
    case False
    then show ?thesis
      using Cons.IH unfolding e
      by (cases exact)
        (simp_all add: FindWindow_spec_def FindWindow_matches_def py_in_iff norm'_normalize)
  qed
qed

lemma py_bind_Inr: "m w = (Inr x, w') \<Longrightarrow> py_bind m f w = f x w'"
  by (simp add: py_bind_def)

lemma py_bind_Inl: "m w = (Inl e, w') \<Longrightarrow> py_bind m f w = (Inl e, w')"
  by (simp add: py_bind_def)

lemma FindWindow_spec_None:
  "FindWindow_spec lc windows q exact cs = None
     \<longleftrightarrow> (\<forall>e \<in> set windows. \<not> FindWindow_matches lc exact cs q (snd e))"
  by (auto simp: FindWindow_spec_def find_None_iff)

lemma FindWindow_spec_Some:
  "FindWindow_spec lc windows q exact cs = Some h
     \<longleftrightarrow> (\<exists>i<length windows. fst (windows ! i) = h
            \<and> FindWindow_matches lc exact cs q (snd (windows ! i))
            \<and> (\<forall>j<i. \<not> FindWindow_matches lc exact cs q (snd (windows ! j))))"
  (is "?L \<longleftrightarrow> ?R")
proof
  assume ?L
  then obtain e where e: "find (\<lambda>e. FindWindow_matches lc exact cs q (snd e)) windows = Some e"
    and h: "fst e = h"
    by (auto simp: FindWindow_spec_def)
  from e [unfolded find_Some_iff] obtain i where
    i: "i < length windows" "FindWindow_matches lc exact cs q (snd (windows ! i))"
       "e = windows ! i" "\<forall>j<i. \<not> FindWindow_matches lc exact cs q (snd (windows ! j))"
    by blast
  show ?R
  proof (intro exI conjI)
    show "i < length windows" by (rule i(1))
    show "fst (windows ! i) = h" using h i(3) by simp
    show "FindWindow_matches lc exact cs q (snd (windows ! i))" by (rule i(2))
    show "\<forall>j<i. \<not> FindWindow_matches lc exact cs q (snd (windows ! j))" by (rule i(4))
  qed
next
  assume ?R
  then obtain i where i: "i < length windows" "fst (windows ! i) = h"
    "FindWindow_matches lc exact cs q (snd (windows ! i))"
    "\<forall>j<i. \<not> FindWindow_matches lc exact cs q (snd (windows ! j))"
    by blast
  have "\<exists>k<length windows. FindWindow_matches lc exact cs q (snd (windows ! k))
          \<and> windows ! i = windows ! k
          \<and> (\<forall>j<k. \<not> FindWindow_matches lc exact cs q (snd (windows ! j)))"
    using i(1,3,4) by (intro exI [of _ i]) simp
  then have "find (\<lambda>e. FindWindow_matches lc exact cs q (snd e)) windows = Some (windows ! i)"
    unfolding find_Some_iff .
  then show ?L using i(2) by (simp add: FindWindow_spec_def)
qed

text \<open>
  C3. For every query, every window list that the enumeration returns and every
  lower-casing of the character database, \<^verbatim>\<open>find_window_hwnd\<close> returns the handle
  of the first entry, in list order, whose normalized title equals the normalized query
  (\<open>exact\<close>) or contains it as a substring (not \<open>exact\<close>), where normalization
  lower-cases both sides exactly when \<open>case_sensitive\<close> is false; an empty list or a
  list without a match gives \<open>None\<close>, a value and not an exception. The result is
  \<open>Some h\<close> exactly when \<open>h\<close> is the handle of a matching entry that no matching
  entry precedes.
\<close>

theorem find_window_hwnd_first_match:
  assumes "list_visible_windows P w = (Inr windows, w')"
  shows "find_window_hwnd P q exact case_sensitive w
           = (Inr (FindWindow_spec (lower P) windows q exact case_sensitive), w')
    \<and> FindWindow_spec (lower P) [] q exact case_sensitive = None
    \<and> (FindWindow_spec (lower P) windows q exact case_sensitive = None
           \<longleftrightarrow> (\<forall>e \<in> set windows.
                  \<not> FindWindow_matches (lower P) exact case_sensitive q (snd e)))
    \<and> (FindWindow_spec (lower P) windows q exact case_sensitive = Some h
           \<longleftrightarrow> (\<exists>i<length windows. fst (windows ! i) = h
                  \<and> FindWindow_matches (lower P) exact case_sensitive q (snd (windows ! i))
                  \<and> (\<forall>j<i. \<not> FindWindow_matches (lower P) exact case_sensitive q
                                  (snd (windows ! j)))))"
proof (intro conjI)
  show "find_window_hwnd P q exact case_sensitive w
           = (Inr (FindWindow_spec (lower P) windows q exact case_sensitive), w')"
    using assms by (simp add: find_window_hwnd_def py_bind_def py_return_def find_loop_spec)
  show "FindWindow_spec (lower P) [] q exact case_sensitive = None"
    by (simp add: FindWindow_spec_def)
  show "FindWindow_spec (lower P) windows q exact case_sensitive = None
           \<longleftrightarrow> (\<forall>e \<in> set windows.
                  \<not> FindWindow_matches (lower P) exact case_sensitive q (snd e))"
    by (rule FindWindow_spec_None)
  show "FindWindow_spec (lower P) windows q exact case_sensitive = Some h
           \<longleftrightarrow> (\<exists>i<length windows. fst (windows ! i) = h
                  \<and> FindWindow_matches (lower P) exact case_sensitive q (snd (windows ! i))
                  \<and> (\<forall>j<i. \<not> FindWindow_matches (lower P) exact case_sensitive q
                                  (snd (windows ! j))))"
    by (rule FindWindow_spec_Some)
qed


lemma demo_strip:
  "strip demo_platform (str ''Foo'') = str ''Foo''"
  "strip demo_platform (str ''FooBar '') = str ''FooBar''"
  "strip demo_platform (str ''Baz'') = str ''Baz''"
  by (simp_all add: strip_def str_def demo_platform_def)

lemma demo_windows:
  "fst (list_visible_windows demo_platform demo_world)
     = Inr [(100, str ''Foo''), (200, str ''FooBar''), (300, str ''Baz'')]"
proof -
  have fields: "os_name demo_platform = ''nt''" "has_ctypes demo_platform" "has_pywin32 demo_platform"
    "set_process_dpi_awareness demo_platform 2 0 = (Some 0, 2)"
    "enum_windows demo_platform = (\<lambda>s. (Some [100, 200, 300], s))"
    "is_window_visible demo_platform = (\<lambda>h s. (True, s))"
    "get_window_text demo_platform 100 = (\<lambda>s. (str ''Foo'', s))"
    "get_window_text demo_platform 200 = (\<lambda>s. (str ''FooBar '', s))"
    "get_window_text demo_platform 300 = (\<lambda>s. (str ''Baz'', s))"
    by (simp_all add: demo_platform_def)
  have nonempty: "str ''Foo'' \<noteq> []" "str ''FooBar '' \<noteq> []" "str ''FooBar'' \<noteq> []" "str ''Baz'' \<noteq> []"
    by (simp_all add: str_def)
  show ?thesis
    by (simp add: list_visible_windows_def require_windows_def is_windows_def
        try_set_dpi_awareness_def require_pywin32_def import_module_def enum_handler_def
        py_bind_def py_try_def py_return_def py_raise_def syscall_def syscall_opt_def
        fields nonempty demo_world_def demo_strip Let_def)
qed

lemma accent_windows:
  "fst (list_visible_windows accent_platform demo_world) = Inr [(400, [201, 99, 114, 97, 110])]"
  by (simp add: list_visible_windows_def require_windows_def is_windows_def
      try_set_dpi_awareness_def require_pywin32_def import_module_def enum_handler_def
      py_bind_def py_try_def py_return_def py_raise_def syscall_def syscall_opt_def
      accent_platform_def demo_platform_def demo_world_def strip_def Let_def)

lemma demo_lower:
  "lower demo_platform (str ''Foo'') = str ''foo''"
  "lower demo_platform (str ''FooBar'') = str ''foobar''"
  "lower demo_platform (str ''Baz'') = str ''baz''"
  "lower demo_platform (str ''foo'') = str ''foo''"
  "lower demo_platform (str ''foobar'') = str ''foobar''"
  "lower demo_platform (str ''qux'') = str ''qux''"
  "lower accent_platform [201, 99, 114, 97, 110] = [233, 99, 114, 97, 110]"
  "lower accent_platform [233] = [233]"
  by (simp_all add: lower_def str_def demo_platform_def accent_platform_def upt_rec)

lemma demo_find:
  "find_loop demo_platform False False (norm' demo_platform False (str ''foo''))
     [(100, str ''Foo''), (200, str ''FooBar''), (300, str ''Baz'')] = Some 100"
  "find_loop demo_platform True False (norm' demo_platform False (str ''foobar''))
     [(100, str ''Foo''), (200, str ''FooBar''), (300, str ''Baz'')] = Some 200"
  "find_loop demo_platform False False (norm' demo_platform False (str ''qux''))
     [(100, str ''Foo''), (200, str ''FooBar''), (300, str ''Baz'')] = None"
  "find_loop demo_platform False True (norm' demo_platform True (str ''foo''))
     [(100, str ''Foo''), (200, str ''FooBar''), (300, str ''Baz'')] = None"
  "find_loop accent_platform False False (norm' accent_platform False [233])
     [(400, [201, 99, 114, 97, 110])] = Some 400"
  "find_loop accent_platform False True (norm' accent_platform True [233])
     [(400, [201, 99, 114, 97, 110])] = None"
  by (simp_all add: norm'_def demo_lower Let_def) (simp_all add: str_def startswith_def)

theorem find_window_hwnd_first_match_witness:
  "fst (find_window_hwnd demo_platform (str ''foo'') False False demo_world) = Inr (Some 100)
   \<and> fst (find_window_hwnd demo_platform (str ''foobar'') True False demo_world) = Inr (Some 200)
   \<and> fst (find_window_hwnd demo_platform (str ''qux'') False False demo_world) = Inr None
   \<and> fst (find_window_hwnd demo_platform (str ''foo'') False True demo_world) = Inr None
   \<and> fst (find_window_hwnd accent_platform [233] False False demo_world) = Inr (Some 400)
   \<and> fst (find_window_hwnd accent_platform [233] False True demo_world) = Inr None"
proof -
  let ?ws = "[(100, str ''Foo''), (200, str ''FooBar''), (300, str ''Baz'')]"
  let ?vs = "[(400, [201, 99, 114, 97, 110])] :: (int \<times> py_str) list"
  obtain w' where w: "list_visible_windows demo_platform demo_world = (Inr ?ws, w')"
    using demo_windows by (cases "list_visible_windows demo_platform demo_world") simp
  obtain v' where v: "list_visible_windows accent_platform demo_world = (Inr ?vs, v')"
    using accent_windows by (cases "list_visible_windows accent_platform demo_world") simp
  have run: "fst (find_window_hwnd demo_platform q exact cs demo_world)
               = Inr (find_loop demo_platform exact cs (norm' demo_platform cs q) ?ws)" for q exact cs
    using find_window_hwnd_first_match [OF w, of q exact cs, THEN conjunct1]
    by (simp only: find_loop_spec fst_conv)
  have run': "fst (find_window_hwnd accent_platform q exact cs demo_world)
               = Inr (find_loop accent_platform exact cs (norm' accent_platform cs q) ?vs)" for q exact cs
    using find_window_hwnd_first_match [OF v, of q exact cs, THEN conjunct1]
    by (simp only: find_loop_spec fst_conv)
  show ?thesis
    unfolding run run' demo_find by simp
qed

lemma lower_Nil_iff: "lower P t = [] \<longleftrightarrow> t = []"
proof (cases t)
  case Nil
  then show ?thesis by (simp add: lower_def)
next
  case (Cons c cs)
  obtain a as where a: "str_lower_at P t 0 = (a, as)" by (cases "str_lower_at P t 0")
  define image where "image = (\<lambda>i. case str_lower_at P t i of (c, cs) \<Rightarrow> c # cs)"
  have "image 0 = a # as" by (simp add: image_def a)
  moreover have "0 \<in> set [0..<length t]" using Cons by simp
  then have "image 0 \<in> image ` set [0..<length t]" by (rule imageI)
  ultimately have "a # as \<in> set (map image [0..<length t])" by (simp only: set_map)
  then have "concat (map image [0..<length t]) \<noteq> []"
    unfolding concat_eq_Nil_conv by blast
  then have "lower P t \<noteq> []" by (simp add: lower_def image_def)
  with Cons show ?thesis by simp
qed

lemma norm'_Nil_iff: "norm' P cs t = [] \<longleftrightarrow> t = []"
  by (simp add: norm'_def lower_Nil_iff)

lemma py_in_Nil: "py_in [] t"
  by (cases t) (simp_all add: startswith_def)

lemma find_loop_empty_substring:
  "find_loop P False cs [] windows = (case windows of [] \<Rightarrow> None | e # _ \<Rightarrow> Some (fst e))"
  by (cases windows) (auto simp: py_in_Nil)

lemma find_loop_empty_exact:
  "find_loop P True cs [] windows = None \<longleftrightarrow> (\<forall>e \<in> set windows. snd e \<noteq> [])"
  by (induction windows) (auto simp: norm'_Nil_iff split: if_splits)

text \<open>
  C9. With the empty query and \<open>exact = False\<close>, \<^verbatim>\<open>find_window_hwnd\<close> returns
  the handle of the first entry of every non-empty window list, since the empty string is
  a substring of every title; on the empty query it returns \<open>None\<close> only when the list
  is empty, or \<open>exact\<close> is true and no title is empty.
\<close>

theorem find_window_hwnd_empty_query:
  assumes "list_visible_windows P w = (Inr windows, w')"
  shows "(windows \<noteq> [] \<longrightarrow>
            find_window_hwnd P [] False case_sensitive w = (Inr (Some (fst (hd windows))), w'))
       \<and> (find_window_hwnd P [] exact case_sensitive w = (Inr None, w')
            \<longleftrightarrow> windows = [] \<or> (exact \<and> (\<forall>e \<in> set windows. snd e \<noteq> [])))"
proof -
  have run: "find_window_hwnd P [] ex case_sensitive w
               = (Inr (find_loop P ex case_sensitive [] windows), w')" for ex
    using assms by (simp add: find_window_hwnd_def py_bind_def py_return_def norm'_def lower_def)
  have first: "windows \<noteq> [] \<longrightarrow>
      find_window_hwnd P [] False case_sensitive w = (Inr (Some (fst (hd windows))), w')"
    by (cases windows) (simp_all add: run find_loop_empty_substring)
  have none: "find_window_hwnd P [] exact case_sensitive w = (Inr None, w')
      \<longleftrightarrow> windows = [] \<or> (exact \<and> (\<forall>e \<in> set windows. snd e \<noteq> []))"
  proof (cases exact)
    case True
    then show ?thesis
      using find_loop_empty_exact [of P case_sensitive windows] by (auto simp: run)
  next
    case False
    then show ?thesis
      by (cases windows) (simp_all add: run find_loop_empty_substring)
  qed
  from first none show ?thesis by (rule conjI)
qed

theorem find_window_hwnd_empty_query_witness:
  "fst (find_window_hwnd demo_platform [] False False demo_world) = Inr (Some 100)
   \<and> fst (find_window_hwnd demo_platform [] True False demo_world) = Inr None"
proof -
  obtain w' where w: "list_visible_windows demo_platform demo_world
      = (Inr [(100, str ''Foo''), (200, str ''FooBar''), (300, str ''Baz'')], w')"
    using demo_windows by (cases "list_visible_windows demo_platform demo_world") simp
  show ?thesis
    using find_window_hwnd_empty_query [OF w, of False False]
      find_window_hwnd_empty_query [OF w, of False True]
    by (simp add: str_def)
qed


section \<open>Frame grabber\<close>

subsection \<open>Channel order\<close>

lemma take_channel_ok:
  assumes "\<forall>row \<in> set frame. \<forall>p \<in> set row. k < length p"
  shows "take_channel k frame = Inr (map (map (\<lambda>p. p ! k)) frame)"
proof -
  have "\<not> (\<exists>row \<in> set frame. \<exists>p \<in> set row. length p \<le> k)"
    using assms by (auto simp: not_le)
  then show ?thesis by (simp add: take_channel_def)
qed

lemma take_channel_cases:
  "take_channel k frame = Inl IndexError \<or> take_channel k frame = Inr (map (map (\<lambda>p. p ! k)) frame)"
  by (simp add: take_channel_def)

lemma zip3_map: "zip (map f xs) (zip (map g xs) (map h xs)) = map (\<lambda>x. (f x, g x, h x)) xs"
  by (induction xs) simp_all

lemma stack_last_channels:
  "stack_last (map (map f) frame) (map (map g) frame) (map (map h) frame)
     = Inr (map (map (\<lambda>p. [f p, g p, h p])) frame)"
  by (simp add: stack_last_def zip3_map comp_def)

lemma bgra_to_rgb_cases:
  "bgra_to_rgb (Some frame) = Inl IndexError
   \<or> bgra_to_rgb (Some frame) = Inr (map (map (\<lambda>p. [p ! 2, p ! 1, p ! 0])) frame)"
  using take_channel_cases [of 0 frame] take_channel_cases [of 1 frame]
    take_channel_cases [of 2 frame]
  by (auto simp: bgra_to_rgb_def stack_last_channels)

lemma bgra_to_rgb_ok:
  assumes "\<forall>row \<in> set frame. \<forall>p \<in> set row. 2 < length p"
  shows "bgra_to_rgb (Some frame) = Inr (map (map (\<lambda>p. [p ! 2, p ! 1, p ! 0])) frame)"
proof -
  have k: "\<forall>row \<in> set frame. \<forall>p \<in> set row. k < length p" if "k \<le> 2" for k
    using assms that by fastforce
  have "take_channel 0 frame = Inr (map (map (\<lambda>p. p ! 0)) frame)"
    "take_channel 1 frame = Inr (map (map (\<lambda>p. p ! 1)) frame)"
    "take_channel 2 frame = Inr (map (map (\<lambda>p. p ! 2)) frame)"
    by (rule take_channel_ok, rule k, simp)+
  then show ?thesis by (simp add: bgra_to_rgb_def stack_last_channels)
qed

text \<open>
  C4. For every 4-channel BGRA buffer, \<^verbatim>\<open>bgra_to_rgb\<close> returns a buffer of the same
  height and the same width in every row, with three channels per pixel in the order red,
  green, blue and the alpha sample dropped: output channel 0 is input channel 2, output
  channel 1 is input channel 1, output channel 2 is input channel 0. A pixel whose green
  and red samples are zero comes out as two zeros followed by its blue sample.
\<close>

theorem bgra_to_rgb_reorders:
  assumes "\<forall>row \<in> set frame. \<forall>p \<in> set row. length p = 4"
  shows "\<exists>out. bgra_to_rgb (Some frame) = Inr out
           \<and> length out = length frame
           \<and> (\<forall>y < length frame. length (out ! y) = length (frame ! y)
                \<and> (\<forall>x < length (frame ! y).
                      length (out ! y ! x) = 3
                    \<and> out ! y ! x ! 0 = frame ! y ! x ! 2
                    \<and> out ! y ! x ! 1 = frame ! y ! x ! 1
                    \<and> out ! y ! x ! 2 = frame ! y ! x ! 0
                    \<and> (frame ! y ! x ! 1 = 0 \<and> frame ! y ! x ! 2 = 0
                         \<longrightarrow> out ! y ! x = [0, 0, frame ! y ! x ! 0])))"
proof -
  have "\<forall>row \<in> set frame. \<forall>p \<in> set row. 2 < length p"
    using assms by simp
  then have "bgra_to_rgb (Some frame) = Inr (map (map (\<lambda>p. [p ! 2, p ! 1, p ! 0])) frame)"
    by (rule bgra_to_rgb_ok)
  then show ?thesis by simp
qed

theorem bgra_to_rgb_reorders_witness:
  "bgra_to_rgb (Some [[[255, 0, 0, 255], [7, 0, 0, 255]]]) = Inr [[[0, 0, 255], [0, 0, 7]]]"
proof -
  have "\<forall>row \<in> set [[[255, 0, 0, 255], [7, 0, 0, 255 :: 8 word]]]. \<forall>p \<in> set row. length p = 4"
    by simp
  from bgra_to_rgb_reorders [OF this] obtain out where
    out: "bgra_to_rgb (Some [[[255, 0, 0, 255], [7, 0, 0, 255]]]) = Inr out"
    by blast
  moreover have "bgra_to_rgb (Some [[[255, 0, 0, 255], [7, 0, 0, 255]]]) = Inr [[[0, 0, 255], [0, 0, 7]]]"
    by (simp add: bgra_to_rgb_def take_channel_def stack_last_def)
  ultimately show ?thesis by simp
qed

subsection \<open>Monitor capture\<close>

lemma capture_fullscreen_rgb_run:
  "capture_fullscreen_rgb P i w =
     (if \<not> has_mss P then (Inl ImportError, w)
      else case monitors P (os w) of (ms, s) \<Rightarrow>
        if i < 0 \<or> int (length ms) \<le> i
        then (Inl ValueError, \<lparr>os = s, trace = trace w @ [Monitors]\<rparr>)
        else (case grab P (ms ! nat i) s of
                (None, s') \<Rightarrow> (Inl ScreenShotError,
                                \<lparr>os = s', trace = trace w @ [Monitors, Grab (ms ! nat i)]\<rparr>)
              | (Some frame, s') \<Rightarrow> (bgra_to_rgb (Some frame),
                                \<lparr>os = s', trace = trace w @ [Monitors, Grab (ms ! nat i)]\<rparr>)))"
proof (cases "has_mss P")
  case False
  then show ?thesis
    by (simp add: capture_fullscreen_rgb_def py_bind_def py_try_def import_module_def
        py_raise_def)
next
  case mss: True
  obtain ms s where ms: "monitors P (os w) = (ms, s)" by (cases "monitors P (os w)")
  show ?thesis
  proof (cases "i < 0 \<or> int (length ms) \<le> i")
    case True
    then show ?thesis
      using mss ms
      by (simp add: capture_fullscreen_rgb_def py_bind_def py_try_def import_module_def
          py_return_def syscall_def py_raise_def)
  next
    case False
    obtain r s' where g: "grab P (ms ! nat i) s = (r, s')" by (cases "grab P (ms ! nat i) s")
    show ?thesis
      using mss ms False g
      by (cases r)
        (simp_all add: capture_fullscreen_rgb_def py_bind_def py_try_def import_module_def
          py_return_def syscall_def syscall_opt_def lift_def)
  qed
qed

text \<open>
  C6. With the capture library present, \<^verbatim>\<open>capture_fullscreen_rgb\<close> raises the
  \<^verbatim>\<open>ValueError\<close> of the range check exactly when the index is outside
  \<open>[0, monitorCount - 1]\<close>, where \<open>monitorCount\<close> is the length of the list of monitors
  the library reports; in that case the only platform call made is the reading of that
  list: no grab is attempted. An index in range is followed by the grab of that monitor.
\<close>

theorem capture_fullscreen_rgb_range_check:
  assumes "has_mss P"
  shows "(fst (capture_fullscreen_rgb P i w) = Inl ValueError
            \<longleftrightarrow> i < 0 \<or> int (length (fst (monitors P (os w)))) \<le> i)
       \<and> (i < 0 \<or> int (length (fst (monitors P (os w)))) \<le> i
            \<longrightarrow> trace (snd (capture_fullscreen_rgb P i w)) = trace w @ [Monitors]
              \<and> os (snd (capture_fullscreen_rgb P i w)) = snd (monitors P (os w)))
       \<and> (\<not> (i < 0 \<or> int (length (fst (monitors P (os w)))) \<le> i)
            \<longrightarrow> trace (snd (capture_fullscreen_rgb P i w))
                  = trace w @ [Monitors, Grab (fst (monitors P (os w)) ! nat i)])"
proof -
  obtain ms s where ms: "monitors P (os w) = (ms, s)" by (cases "monitors P (os w)")
  show ?thesis
  proof (cases "i < 0 \<or> int (length ms) \<le> i")
    case True
    then show ?thesis using assms ms by (simp add: capture_fullscreen_rgb_run)
  next
    case False
    obtain r s' where g: "grab P (ms ! nat i) s = (r, s')" by (cases "grab P (ms ! nat i) s")
    show ?thesis
    proof (cases r)
      case None
      then show ?thesis using assms ms False g by (simp add: capture_fullscreen_rgb_run)
    next
      case (Some frame)
      then show ?thesis
        using assms ms False g bgra_to_rgb_cases [of frame]
        by (auto simp: capture_fullscreen_rgb_run)
    qed
  qed
qed

theorem capture_fullscreen_rgb_range_check_witness:
  "fst (capture_fullscreen_rgb demo_platform 2 demo_world) = Inl ValueError
   \<and> trace (snd (capture_fullscreen_rgb demo_platform 2 demo_world)) = [Monitors]
   \<and> fst (capture_fullscreen_rgb demo_platform (- 1) demo_world) = Inl ValueError
   \<and> fst (capture_fullscreen_rgb demo_platform 1 demo_world) = Inr [[[0, 0, 255], [0, 0, 7]]]"
proof -
  have mss: "has_mss demo_platform" by (simp add: demo_platform_def)
  have ms: "length (fst (monitors demo_platform 0)) = 2"
    by (simp add: demo_platform_def)
  have ok: "fst (capture_fullscreen_rgb demo_platform 1 demo_world) = Inr [[[0, 0, 255], [0, 0, 7]]]"
    by (simp add: capture_fullscreen_rgb_run demo_platform_def demo_world_def
        bgra_to_rgb_def take_channel_def stack_last_def)
  show ?thesis
    using capture_fullscreen_rgb_range_check [OF mss, of 2 demo_world]
      capture_fullscreen_rgb_range_check [OF mss, of "- 1" demo_world] ok
    by (simp add: ms demo_world_def)
qed

lemma capture_fullscreen_rgb_without_mss:
  "\<not> has_mss P \<Longrightarrow> capture_fullscreen_rgb P i w = (Inl ImportError, w)"
  by (simp add: capture_fullscreen_rgb_run)

subsection \<open>Display awareness\<close>

lemma try_set_dpi_awareness_run:
  "try_set_dpi_awareness P w =
     (if \<not> has_ctypes P then (Inr (), w)
      else case set_process_dpi_awareness P 2 (os w) of
             (Some v, s) \<Rightarrow> (Inr (), \<lparr>os = s, trace = trace w @ [SetProcessDpiAwareness 2]\<rparr>)
           | (None, s) \<Rightarrow>
               (Inr (), \<lparr>os = snd (set_process_dpi_aware P s),
                         trace = trace w @ [SetProcessDpiAwareness 2, SetProcessDPIAware]\<rparr>))"
  by (simp add: try_set_dpi_awareness_def py_try_def py_bind_def import_module_def
      py_return_def py_raise_def syscall_opt_def split: prod.splits option.splits)




subsection \<open>Window capture\<close>

lemma py_bind_assoc: "py_bind (py_bind m f) g = py_bind m (\<lambda>x. py_bind (f x) g)"
  by (rule ext) (simp add: py_bind_def split: prod.splits sum.splits)

lemma capture_rect_bgra_no_Win32Error:
  "fst (capture_rect_bgra P rect w) \<noteq> Inl Win32Error"
  by (simp add: capture_rect_bgra_def py_bind_def py_try_def import_module_def py_return_def
      py_raise_def syscall_opt_def Let_def split: prod.splits option.splits)

lemma bgra_to_rgb_no_Win32Error: "bgra_to_rgb (Some frame) \<noteq> Inl Win32Error"
  using bgra_to_rgb_cases [of frame] by auto

lemma CaptureRect_spec_no_Win32Error:
  "fst (CaptureRect_spec P rect w) \<noteq> Inl Win32Error"
proof -
  obtain r w1 where c: "capture_rect_bgra P rect w = (r, w1)"
    by (cases "capture_rect_bgra P rect w")
  show ?thesis
  proof (cases r)
    case (Inl e)
    with c capture_rect_bgra_no_Win32Error [of P rect w] show ?thesis
      by (simp add: CaptureRect_spec_def py_bind_def)
  next
    case (Inr frame)
    with c bgra_to_rgb_no_Win32Error [of frame] show ?thesis
      by (simp add: CaptureRect_spec_def py_bind_def lift_def)
  qed
qed

text \<open>
  C8. For every handle and flag, \<^verbatim>\<open>capture_window_rgb\<close> is the composition of the
  specification: the rectangle of the window is resolved, captured, and the channels are
  reordered, that is \<^verbatim>\<open>bgra_to_rgb(capture_rect_bgra(get_window_rect(h, client_area)))\<close>;
  it fails with the error of an invalid handle (\<open>Win32Error\<close>) exactly when
  \<^verbatim>\<open>get_window_rect\<close> does.
\<close>

theorem capture_window_rgb_composition:
  "capture_window_rgb P hwnd client_area = CaptureWindow_spec P hwnd client_area
   \<and> capture_window_rgb P hwnd client_area w =
       (case get_window_rect P hwnd client_area w of
          (Inl e, w1) \<Rightarrow> (Inl e, w1)
        | (Inr rect, w1) \<Rightarrow>
            (case capture_rect_bgra P rect w1 of
               (Inl e, w2) \<Rightarrow> (Inl e, w2)
             | (Inr frame, w2) \<Rightarrow> (bgra_to_rgb (Some frame), w2)))
   \<and> (fst (capture_window_rgb P hwnd client_area w) = Inl Win32Error
        \<longleftrightarrow> fst (get_window_rect P hwnd client_area w) = Inl Win32Error)"
proof (intro conjI)
  have "CaptureRect_spec P
          = (\<lambda>rect. py_bind (capture_rect_bgra P rect) (\<lambda>frame. lift (bgra_to_rgb (Some frame))))"
    by (rule ext) (simp add: CaptureRect_spec_def)
  then show eq: "capture_window_rgb P hwnd client_area = CaptureWindow_spec P hwnd client_area"
    by (simp add: capture_window_rgb_def CaptureWindow_spec_def)
  show "capture_window_rgb P hwnd client_area w =
       (case get_window_rect P hwnd client_area w of
          (Inl e, w1) \<Rightarrow> (Inl e, w1)
        | (Inr rect, w1) \<Rightarrow>
            (case capture_rect_bgra P rect w1 of
               (Inl e, w2) \<Rightarrow> (Inl e, w2)
             | (Inr frame, w2) \<Rightarrow> (bgra_to_rgb (Some frame), w2)))"
    by (simp add: capture_window_rgb_def py_bind_def lift_def split: prod.splits sum.splits)
  show "fst (capture_window_rgb P hwnd client_area w) = Inl Win32Error
        \<longleftrightarrow> fst (get_window_rect P hwnd client_area w) = Inl Win32Error"
  proof -
    obtain r w1 where g: "get_window_rect P hwnd client_area w = (r, w1)"
      by (cases "get_window_rect P hwnd client_area w")
    show ?thesis
    proof (cases r)
      case (Inl e)
      with g show ?thesis by (simp add: eq CaptureWindow_spec_def py_bind_def)
    next
      case (Inr rect)
      with g CaptureRect_spec_no_Win32Error [of P rect w1] show ?thesis
        by (simp add: eq CaptureWindow_spec_def py_bind_def)
    qed
  qed
qed

theorem capture_window_rgb_composition_witness:
  "fst (capture_window_rgb demo_platform 100 True demo_world) = Inr [[[0, 0, 255], [0, 0, 7]]]
   \<and> fst (get_window_rect demo_platform 100 True demo_world)
        = Inr \<lparr>left = 8, top' = 31, right = 10, bottom = 32\<rparr>
   \<and> fst (get_window_rect demo_platform 555 True demo_world) = Inl Win32Error
   \<and> fst (capture_window_rgb demo_platform 555 True demo_world) = Inl Win32Error"
proof -
  have r1: "get_window_rect demo_platform 100 True demo_world
      = (Inr \<lparr>left = 8, top' = 31, right = 10, bottom = 32\<rparr>,
         \<lparr>os = 2, trace = [SetProcessDpiAwareness 2, ClientToScreen 100 (0, 0), GetClientRect 100]\<rparr>)"
    by (simp add: get_window_rect_def require_windows_def is_windows_def require_pywin32_def
        try_set_dpi_awareness_run py_bind_def py_try_def py_return_def py_raise_def
        import_module_def syscall_opt_def demo_platform_def demo_world_def)
  have r2: "fst (get_window_rect demo_platform 555 True demo_world) = Inl Win32Error"
    by (simp add: get_window_rect_def require_windows_def is_windows_def require_pywin32_def
        try_set_dpi_awareness_run py_bind_def py_try_def py_return_def py_raise_def
        import_module_def syscall_opt_def demo_platform_def demo_world_def)
  have c1: "capture_rect_bgra demo_platform \<lparr>left = 8, top' = 31, right = 10, bottom = 32\<rparr> u
      = (Inr [[[255, 0, 0, 255], [7, 0, 0, 255]]],
         \<lparr>os = os u, trace = trace u @ [Grab \<lparr>mon_left = 8, mon_top = 31, mon_width = 2, mon_height = 1\<rparr>]\<rparr>)" for u
    by (simp add: capture_rect_bgra_def py_bind_def py_try_def py_return_def py_raise_def
        import_module_def syscall_opt_def demo_platform_def Let_def width_def height_def)
  have b1: "bgra_to_rgb (Some [[[255, 0, 0, 255], [7, 0, 0, 255]]]) = Inr [[[0, 0, 255], [0, 0, 7]]]"
    by (simp add: bgra_to_rgb_def take_channel_def stack_last_def)
  have "fst (capture_window_rgb demo_platform 100 True demo_world) = Inr [[[0, 0, 255], [0, 0, 7]]]"
    using capture_window_rgb_composition [of demo_platform 100 True demo_world, THEN conjunct2, THEN conjunct1]
    by (simp add: r1 c1 b1)
  moreover have "fst (capture_window_rgb demo_platform 555 True demo_world) = Inl Win32Error"
    using capture_window_rgb_composition [of demo_platform 555 True demo_world,
        THEN conjunct2, THEN conjunct2] r2 by simp
  ultimately show ?thesis using r1 r2 by simp
qed

section \<open>Rounding to the nearest double\<close>

lemma round_half_even_of_int: "round_half_even (of_int n) = n"
  by (simp add: round_half_even_def)

lemma round_half_even_cases:
  "round_half_even x = \<lfloor>x\<rfloor> \<or> (round_half_even x = \<lfloor>x\<rfloor> + 1 \<and> 1 / 2 \<le> x - of_int \<lfloor>x\<rfloor>)"
  by (auto simp: round_half_even_def Let_def)

lemma round_half_even_le:
  assumes "x \<le> of_int n"
  shows "round_half_even x \<le> n"
proof -
  have f: "\<lfloor>x\<rfloor> \<le> n" using assms by (simp add: floor_le_iff)
  from round_half_even_cases [of x] show ?thesis
  proof
    assume "round_half_even x = \<lfloor>x\<rfloor>"
    with f show ?thesis by simp
  next
    assume a: "round_half_even x = \<lfloor>x\<rfloor> + 1 \<and> 1 / 2 \<le> x - of_int \<lfloor>x\<rfloor>"
    then have "of_int \<lfloor>x\<rfloor> < x" by linarith
    with assms have "of_int \<lfloor>x\<rfloor> < (of_int n :: rat)" by linarith
    then have "\<lfloor>x\<rfloor> < n" by simp
    with a show ?thesis by simp
  qed
qed

lemma round_half_even_ge:
  assumes "of_int n \<le> x"
  shows "n \<le> round_half_even x"
proof -
  have "n \<le> \<lfloor>x\<rfloor>" using assms by (simp add: le_floor_iff)
  with round_half_even_cases [of x] show ?thesis by auto
qed

lemma round_half_even_error: "\<bar>of_int (round_half_even x) - x\<bar> \<le> 1 / 2"
proof -
  have "of_int \<lfloor>x\<rfloor> \<le> x" "x < of_int \<lfloor>x\<rfloor> + 1" by linarith+
  then show ?thesis
    by (auto simp: round_half_even_def Let_def abs_le_iff)
qed

lemma two_powi_pos: "0 < (2::rat) powi k"
  by (simp add: power_int_def)

lemma two_powi_neg: "(2::rat) powi (- int k) = 1 / 2 ^ k"
  by (simp add: power_int_minus inverse_eq_divide)

lemma two_powi_nat: "(2::rat) powi (int k) = 2 ^ k"
  by simp

lemma two_powi_mono: "a \<le> b \<Longrightarrow> (2::rat) powi a \<le> 2 powi b"
  by (rule power_int_increasing) simp_all

lemma two_powi_strict_mono: "a < b \<Longrightarrow> (2::rat) powi a < 2 powi b"
  by (rule power_int_strict_increasing) simp_all

lemma floorlog_two_bounds:
  assumes "0 < n"
  shows "(2::nat) ^ (floorlog 2 n - 1) \<le> n" "n < 2 ^ floorlog 2 n" "0 < floorlog 2 n"
proof -
  from floorlog_bounds [of n 2] assms show "(2::nat) ^ (floorlog 2 n - 1) \<le> n" "n < 2 ^ floorlog 2 n"
    by simp_all
  show "0 < floorlog 2 n" using assms by (simp add: floorlog_def)
qed

lemma float_exponent_bounds:
  assumes "x \<noteq> 0"
  shows "2 powi float_exponent x \<le> \<bar>x\<bar> \<and> \<bar>x\<bar> < 2 powi (float_exponent x + 1)"
proof (cases "1 \<le> \<bar>x\<bar>")
  case True
  define m where "m = nat \<lfloor>\<bar>x\<bar>\<rfloor>"
  define L where "L = floorlog 2 m"
  have mpos: "0 < m" using True by (simp add: m_def)
  have m1: "of_nat m \<le> \<bar>x\<bar>" "\<bar>x\<bar> < of_nat m + 1"
  proof -
    have "(of_nat m :: rat) = of_int \<lfloor>\<bar>x\<bar>\<rfloor>" using True by (simp add: m_def)
    then show "of_nat m \<le> \<bar>x\<bar>" "\<bar>x\<bar> < of_nat m + 1" by linarith+
  qed
  from floorlog_two_bounds [OF mpos] have L: "2 ^ (L - 1) \<le> m" "m < 2 ^ L" "0 < L"
    by (simp_all add: L_def)
  have e: "float_exponent x = int L - 1" using True by (simp add: float_exponent_def m_def L_def)
  have lo: "(2::rat) powi (int L - 1) \<le> \<bar>x\<bar>"
  proof -
    have "(2::rat) powi (int L - 1) = 2 ^ (L - 1)"
      using L(3) by (simp add: power_int_def nat_diff_distrib')
    also have "\<dots> = of_nat (2 ^ (L - 1))" by simp
    also have "\<dots> \<le> of_nat m" using L(1) by (simp only: of_nat_le_iff)
    finally show ?thesis using m1(1) by linarith
  qed
  have hi: "\<bar>x\<bar> < (2::rat) powi (int L - 1 + 1)"
  proof -
    have "m + 1 \<le> 2 ^ L" using L(2) by simp
    then have "(of_nat (m + 1) :: rat) \<le> of_nat (2 ^ L)" by (simp only: of_nat_le_iff)
    then have "(of_nat m :: rat) + 1 \<le> 2 ^ L" by simp
    moreover have "(2::rat) powi (int L - 1 + 1) = 2 ^ L" by (simp add: power_int_def)
    ultimately show ?thesis using m1(2) by linarith
  qed
  from lo hi show ?thesis by (simp add: e)
next
  case False
  define y where "y = 1 / \<bar>x\<bar>"
  define n where "n = nat (\<lceil>y\<rceil> - 1)"
  define L where "L = floorlog 2 n"
  have xpos: "0 < \<bar>x\<bar>" using assms by simp
  have y1: "1 < y" using False xpos by (simp add: y_def)
  have c: "1 < \<lceil>y\<rceil>" using y1 by (simp add: less_ceiling_iff)
  have npos: "0 < n" using c by (simp add: n_def)
  have n1: "of_nat n < y" "y \<le> of_nat n + 1"
  proof -
    have "(of_nat n :: rat) = of_int \<lceil>y\<rceil> - 1" using c by (simp add: n_def)
    then show "of_nat n < y" "y \<le> of_nat n + 1" by linarith+
  qed
  from floorlog_two_bounds [OF npos] have L: "2 ^ (L - 1) \<le> n" "n < 2 ^ L" "0 < L"
    by (simp_all add: L_def)
  have e: "float_exponent x = - int L" using False by (simp add: float_exponent_def y_def n_def L_def)
  have ylo: "(2::rat) ^ (L - 1) < y"
  proof -
    have "(2::rat) ^ (L - 1) = of_nat (2 ^ (L - 1))" by simp
    also have "\<dots> \<le> of_nat n" using L(1) by (simp only: of_nat_le_iff)
    finally show ?thesis using n1(1) by linarith
  qed
  have yhi: "y \<le> (2::rat) ^ L"
  proof -
    have "n + 1 \<le> 2 ^ L" using L(2) by simp
    then have "(of_nat (n + 1) :: rat) \<le> of_nat (2 ^ L)" by (simp only: of_nat_le_iff)
    then have "(of_nat n :: rat) + 1 \<le> 2 ^ L" by simp
    then show ?thesis using n1(2) by linarith
  qed
  have x_eq: "\<bar>x\<bar> = 1 / y" using xpos by (simp add: y_def)
  have lo: "(2::rat) powi (- int L) \<le> \<bar>x\<bar>"
  proof -
    have "(2::rat) powi (- int L) = 1 / 2 ^ L" by (rule two_powi_neg)
    also have "\<dots> \<le> 1 / y" using yhi y1 by (simp add: frac_le)
    finally show ?thesis by (simp add: x_eq)
  qed
  have hi: "\<bar>x\<bar> < (2::rat) powi (- int L + 1)"
  proof -
    have "1 / y < 1 / (2::rat) ^ (L - 1)" using ylo by (simp add: frac_less2)
    moreover have "(2::rat) powi (- int L + 1) = 1 / 2 ^ (L - 1)"
    proof -
      have "- int L + 1 = - int (L - 1)" using L(3) by simp
      then show ?thesis by (simp only: two_powi_neg)
    qed
    ultimately show ?thesis by (simp add: x_eq)
  qed
  from lo hi show ?thesis by (simp add: e)
qed

lemma float_exponent_unique:
  assumes "2 powi e \<le> \<bar>x\<bar>" "\<bar>x\<bar> < 2 powi (e + 1)"
  shows "float_exponent x = e"
proof -
  have "0 < \<bar>x\<bar>" using assms(1) two_powi_pos [of e] by linarith
  then have "x \<noteq> 0" by simp
  from float_exponent_bounds [OF this]
  have b: "2 powi float_exponent x \<le> \<bar>x\<bar>" "\<bar>x\<bar> < 2 powi (float_exponent x + 1)" by simp_all
  have "\<not> float_exponent x < e"
  proof
    assume "float_exponent x < e"
    then have "float_exponent x + 1 \<le> e" by simp
    from two_powi_mono [OF this] b(2) assms(1) show False by linarith
  qed
  moreover have "\<not> e < float_exponent x"
  proof
    assume "e < float_exponent x"
    then have "e + 1 \<le> float_exponent x" by simp
    from two_powi_mono [OF this] b(1) assms(2) show False by linarith
  qed
  ultimately show ?thesis by simp
qed

lemma ulp_pos: "0 < ulp x"
  by (simp add: ulp_def two_powi_pos)

lemma fl_le_grid:
  assumes "x \<le> of_int n * ulp x"
  shows "fl x \<le> of_int n * ulp x"
proof (cases "x = 0")
  case True
  with assms show ?thesis by (simp add: fl_def)
next
  case False
  have "x / ulp x \<le> of_int n" using assms ulp_pos [of x] by (simp add: pos_divide_le_eq)
  then have "round_half_even (x / ulp x) \<le> n" by (rule round_half_even_le)
  then have "(of_int (round_half_even (x / ulp x)) :: rat) \<le> of_int n" by simp
  then have "of_int (round_half_even (x / ulp x)) * ulp x \<le> of_int n * ulp x"
    using ulp_pos [of x] by (simp add: mult_right_mono)
  with False show ?thesis by (simp add: fl_def)
qed

lemma fl_ge_grid:
  assumes "of_int n * ulp x \<le> x"
  shows "of_int n * ulp x \<le> fl x"
proof (cases "x = 0")
  case True
  with assms show ?thesis by (simp add: fl_def)
next
  case False
  have "of_int n \<le> x / ulp x" using assms ulp_pos [of x] by (simp add: pos_le_divide_eq)
  then have "n \<le> round_half_even (x / ulp x)" by (rule round_half_even_ge)
  then have "(of_int n :: rat) \<le> of_int (round_half_even (x / ulp x))" by simp
  then have "of_int n * ulp x \<le> of_int (round_half_even (x / ulp x)) * ulp x"
    using ulp_pos [of x] by (simp add: mult_right_mono)
  with False show ?thesis by (simp add: fl_def)
qed

lemma fl_grid_fix:
  assumes "x = of_int n * ulp x"
  shows "fl x = x"
proof -
  have "fl x \<le> of_int n * ulp x" using assms by (intro fl_le_grid) simp
  moreover have "of_int n * ulp x \<le> fl x" using assms by (intro fl_ge_grid) simp
  ultimately show ?thesis using assms by simp
qed

lemma fl_error: "\<bar>fl x - x\<bar> \<le> ulp x / 2"
proof (cases "x = 0")
  case True
  then show ?thesis using ulp_pos [of 0] by (simp add: fl_def)
next
  case False
  let ?u = "ulp x"
  let ?r = "of_int (round_half_even (x / ?u)) :: rat"
  have u: "0 < ?u" by (rule ulp_pos)
  have "fl x - x = (?r - x / ?u) * ?u" using False u by (simp add: fl_def field_simps)
  then have "\<bar>fl x - x\<bar> = \<bar>?r - x / ?u\<bar> * ?u" using u by (simp add: abs_mult)
  also have "\<dots> \<le> (1 / 2) * ?u"
    using round_half_even_error [of "x / ?u"] u by (intro mult_right_mono) simp_all
  finally show ?thesis by simp
qed

lemma float_exponent_less:
  assumes "x \<noteq> 0" "\<bar>x\<bar> < 2 powi k"
  shows "float_exponent x < k"
proof (rule ccontr)
  assume "\<not> float_exponent x < k"
  then have "k \<le> float_exponent x" by simp
  from two_powi_mono [OF this] float_exponent_bounds [OF assms(1)] assms(2)
  show False by linarith
qed

lemma ulp_small:
  assumes "x \<noteq> 0" "\<bar>x\<bar> < 2 ^ 53"
  shows "\<exists>k::nat. ulp x = 1 / 2 ^ k"
proof -
  have "\<bar>x\<bar> < 2 powi 53" using assms(2) by simp
  from float_exponent_less [OF assms(1) this] have e: "float_exponent x < 53" .
  define k where "k = nat (52 - max (float_exponent x) (- 1022))"
  have "max (float_exponent x) (- 1022) - 52 = - int k" using e by (simp add: k_def)
  then have "ulp x = 2 powi (- int k)" by (simp add: ulp_def)
  then show ?thesis by (auto simp: two_powi_neg)
qed

lemma int_on_grid:
  assumes "x \<noteq> 0" "\<bar>x\<bar> < 2 ^ 53"
  shows "\<exists>n. (of_int h :: rat) = of_int n * ulp x"
proof -
  from ulp_small [OF assms] obtain k :: nat where k: "ulp x = 1 / 2 ^ k" by blast
  have "(of_int h :: rat) = of_int (h * 2 ^ k) * ulp x" by (simp add: k)
  then show ?thesis by blast
qed

lemma fl_le_int:
  assumes "x \<le> of_int h" "\<bar>x\<bar> < 2 ^ 53"
  shows "fl x \<le> of_int h"
proof (cases "x = 0")
  case True
  with assms show ?thesis by (simp add: fl_def)
next
  case False
  from int_on_grid [OF False assms(2), of h] obtain n where n: "(of_int h :: rat) = of_int n * ulp x"
    by blast
  from fl_le_grid [of x n] assms(1) show ?thesis by (simp add: n)
qed

lemma fl_ge_int:
  assumes "of_int h \<le> x" "\<bar>x\<bar> < 2 ^ 53"
  shows "of_int h \<le> fl x"
proof (cases "x = 0")
  case True
  with assms show ?thesis by (simp add: fl_def)
next
  case False
  from int_on_grid [OF False assms(2), of h] obtain n where n: "(of_int h :: rat) = of_int n * ulp x"
    by blast
  from fl_ge_grid [of n x] assms(1) show ?thesis by (simp add: n)
qed

lemma fl_two_powi:
  assumes "0 \<le> k"
  shows "fl (2 powi k) = 2 powi k" "fl (- (2 powi k)) = - (2 powi k)"
proof -
  have e: "float_exponent (2 powi k) = k" "float_exponent (- (2 powi k)) = k"
    by (rule float_exponent_unique; simp add: two_powi_strict_mono)+
  have "(2::rat) powi (52 + (k - 52)) = 2 powi 52 * 2 powi (k - 52)"
    by (rule power_int_add) simp
  then have g: "(2::rat) powi k = of_int (2 ^ 52) * 2 powi (k - 52)" by simp
  have u: "ulp (2 powi k) = 2 powi (k - 52)" "ulp (- (2 powi k)) = 2 powi (k - 52)"
    using assms by (simp_all add: ulp_def e max_def)
  have "(2::rat) powi k = of_int (2 ^ 52) * ulp (2 powi k)"
    unfolding u(1) by (rule g)
  then show "fl (2 powi k) = 2 powi k"
    by (rule fl_grid_fix)
  have n: "- ((2::rat) powi k) = of_int (- (2 ^ 52)) * 2 powi (k - 52)"
    using g by simp
  have "- ((2::rat) powi k) = of_int (- (2 ^ 52)) * ulp (- (2 powi k))"
    unfolding u(2) by (rule n)
  then show "fl (- (2 powi k)) = - (2 powi k)"
    by (rule fl_grid_fix)
qed

lemma fl_bracket:
  assumes "of_int lo \<le> x" "x \<le> of_int hi" "\<bar>lo\<bar> \<le> 2 ^ 53" "\<bar>hi\<bar> \<le> 2 ^ 53"
  shows "of_int lo \<le> fl x \<and> fl x \<le> of_int hi"
proof -
  define B :: rat where "B = 2 powi 53"
  have B: "B = 2 ^ 53" by (simp add: B_def)
  have "(of_int \<bar>lo\<bar> :: rat) \<le> of_int (2 ^ 53)" "(of_int \<bar>hi\<bar> :: rat) \<le> of_int (2 ^ 53)"
    using assms(3,4) by (simp_all only: of_int_le_iff)
  then have b: "- B \<le> (of_int lo :: rat)" "(of_int hi :: rat) \<le> B"
    by (simp_all add: B)
  then have x: "- B \<le> x" "x \<le> B" using assms(1,2) by simp_all
  have flB: "fl B = B" "fl (- B) = - B"
    unfolding B_def by (rule fl_two_powi; simp)+
  have "\<bar>x\<bar> < B \<or> x = B \<or> x = - B"
    using x by arith
  then consider "\<bar>x\<bar> < B" | "x = B" | "x = - B"
    by blast
  then show ?thesis
  proof cases
    case 1
    then have "\<bar>x\<bar> < 2 ^ 53" by (simp add: B)
    with assms(1,2) show ?thesis by (simp add: fl_le_int fl_ge_int)
  next
    case 2
    with assms(1,2) flB show ?thesis by simp
  next
    case 3
    with assms(1,2) flB show ?thesis by simp
  qed
qed

lemma fl_of_int:
  assumes "\<bar>n\<bar> \<le> 2 ^ 53"
  shows "fl (of_int n) = of_int n"
  using fl_bracket [of n "of_int n" n] assms by simp

section \<open>Interpolation of the drag\<close>

lemma fl_nonneg: "0 \<le> x \<Longrightarrow> 0 \<le> fl x"
  using fl_ge_grid [of 0 x] by simp

lemma fl_nonpos: "x \<le> 0 \<Longrightarrow> fl x \<le> 0"
  using fl_le_grid [of x 0] by simp

lemma two_powi_on_grid:
  assumes "x \<noteq> 0" "\<bar>x\<bar> \<le> 2 powi k" "0 \<le> k"
  shows "\<exists>n. (2::rat) powi k = of_int n * ulp x"
proof -
  have "float_exponent x \<le> k"
  proof (rule ccontr)
    assume "\<not> float_exponent x \<le> k"
    then have "k + 1 \<le> float_exponent x" by simp
    from two_powi_mono [OF this] float_exponent_bounds [OF assms(1)] assms(2)
      two_powi_strict_mono [of k "k + 1"]
    show False by simp
  qed
  then have m: "max (float_exponent x) (- 1022) - 52 \<le> k" using assms(3) by simp
  define j where "j = nat (k - (max (float_exponent x) (- 1022) - 52))"
  have "k = int j + (max (float_exponent x) (- 1022) - 52)" using m by (simp add: j_def)
  then have "(2::rat) powi k = 2 powi (int j + (max (float_exponent x) (- 1022) - 52))" by simp
  also have "\<dots> = 2 powi (int j) * 2 powi (max (float_exponent x) (- 1022) - 52)"
    by (rule power_int_add) simp
  also have "\<dots> = of_int (2 ^ j) * ulp x" by (simp add: ulp_def)
  finally show ?thesis by blast
qed

lemma fl_abs_le_two_powi:
  assumes "\<bar>x\<bar> \<le> 2 powi k" "0 \<le> k"
  shows "\<bar>fl x\<bar> \<le> 2 powi k"
proof (cases "x = 0")
  case True
  then show ?thesis using two_powi_pos [of k] by (simp add: fl_def)
next
  case False
  from two_powi_on_grid [OF False assms] obtain n where n: "(2::rat) powi k = of_int n * ulp x"
    by blast
  have up: "fl x \<le> 2 powi k"
    using fl_le_grid [of x n] assms(1) by (simp add: n [symmetric])
  have "- ((2::rat) powi k) = of_int (- n) * ulp x" by (simp add: n)
  then have "- (2 powi k) \<le> fl x"
    using fl_ge_grid [of "- n" x] assms(1) by simp
  with up show ?thesis by (simp add: abs_le_iff)
qed

lemma no_overflow_two_powi:
  assumes "\<bar>x\<bar> \<le> 2 powi k" "0 \<le> k" "k < 1024"
  shows "\<not> float_overflow (fl x)"
proof -
  have "\<bar>fl x\<bar> \<le> 2 powi k" using assms(1,2) by (rule fl_abs_le_two_powi)
  also have "\<dots> < 2 powi 1024" using assms(3) by (rule two_powi_strict_mono)
  finally show ?thesis by (simp add: float_overflow_def)
qed

lemma no_overflow_small:
  assumes "\<bar>x\<bar> \<le> 2 ^ 53"
  shows "\<not> float_overflow x"
proof -
  have "(2::rat) ^ 53 < 2 ^ 1024" by (rule power_strict_increasing) simp_all
  with assms have "\<bar>x\<bar> < 2 ^ 1024" by (rule le_less_trans)
  then show ?thesis unfolding float_overflow_def by (simp only: not_le)
qed

lemma py_int_of_int: "py_int (of_int n) = n"
  by (simp add: py_int_def)

lemma py_int_bracket:
  assumes "of_int lo \<le> v" "v \<le> of_int hi"
  shows "lo \<le> py_int v \<and> py_int v \<le> hi"
proof (cases "0 \<le> v")
  case True
  have "lo \<le> \<lfloor>v\<rfloor>" using assms(1) by (simp add: le_floor_iff)
  moreover have "\<lfloor>v\<rfloor> \<le> hi" using assms(2) by (simp add: floor_le_iff)
  ultimately show ?thesis using True by (simp add: py_int_def)
next
  case False
  have "lo \<le> \<lceil>v\<rceil>" using assms(1) by (simp add: le_ceiling_iff)
  moreover have "\<lceil>v\<rceil> \<le> hi" using assms(2) by (simp add: ceiling_le_iff)
  ultimately show ?thesis using False by (simp add: py_int_def)
qed

lemma of_int_abs_le_pow:
  assumes "\<bar>n\<bar> \<le> 2 ^ k"
  shows "\<bar>of_int n :: rat\<bar> \<le> 2 ^ k"
proof -
  have "(of_int \<bar>n\<bar> :: rat) \<le> of_int (2 ^ k)" using assms by (simp only: of_int_le_iff)
  then show ?thesis by simp
qed

lemma int_to_float_small:
  assumes "\<bar>n\<bar> \<le> 2 ^ 53"
  shows "int_to_float n = Inr (of_int n)"
proof -
  have "fl (of_int n) = of_int n" using assms by (rule fl_of_int)
  moreover have "\<not> float_overflow (of_int n)"
    using of_int_abs_le_pow [OF assms] by (rule no_overflow_small)
  ultimately show ?thesis by (simp add: int_to_float_def)
qed

lemma float_result_bracket:
  assumes "of_int lo \<le> x" "x \<le> of_int hi" "\<bar>lo\<bar> \<le> 2 ^ 53" "\<bar>hi\<bar> \<le> 2 ^ 53"
  shows "float_result x = Inr (fl x) \<and> of_int lo \<le> fl x \<and> fl x \<le> of_int hi"
proof -
  from fl_bracket [OF assms] have b: "of_int lo \<le> fl x" "fl x \<le> of_int hi" by simp_all
  have "- (2 ^ 53) \<le> (of_int lo :: rat)" "(of_int hi :: rat) \<le> 2 ^ 53"
    using of_int_abs_le_pow [OF assms(3)] of_int_abs_le_pow [OF assms(4)] by (simp_all add: abs_le_iff)
  with b have "\<bar>fl x\<bar> \<le> 2 ^ 53" by (simp add: abs_le_iff)
  then have "\<not> float_overflow (fl x)" by (rule no_overflow_small)
  with b show ?thesis by (simp add: float_result_def)
qed

lemma interpolate_value:
  assumes "\<bar>start\<bar> \<le> 2 ^ 52" "\<bar>end'\<bar> \<le> 2 ^ 52" "0 \<le> t" "t \<le> 1"
  shows "interpolate start end' t
           = Inr (py_int (fl (of_int start + fl (of_int (end' - start) * t))))
       \<and> \<bar>of_int (end' - start) * t\<bar> \<le> 2 ^ 53
       \<and> of_int (min start end') \<le> of_int start + fl (of_int (end' - start) * t)
       \<and> of_int start + fl (of_int (end' - start) * t) \<le> of_int (max start end')
       \<and> of_int (min start end') \<le> fl (of_int start + fl (of_int (end' - start) * t))
       \<and> fl (of_int start + fl (of_int (end' - start) * t)) \<le> of_int (max start end')"
proof -
  define d where "d = end' - start"
  define dq :: rat where "dq = of_int d"
  define sq :: rat where "sq = of_int start"
  have dn: "\<bar>d\<bar> \<le> 2 ^ 53" using assms(1,2) by (simp add: d_def)
  have d: "int_to_float d = Inr dq" unfolding dq_def using dn by (rule int_to_float_small)
  have s: "int_to_float start = Inr sq"
    unfolding sq_def using assms(1) by (intro int_to_float_small) simp
  have pb: "of_int (min 0 d) \<le> dq * t" "dq * t \<le> of_int (max 0 d)"
  proof -
    show "of_int (min 0 d) \<le> dq * t"
    proof (cases "0 \<le> d")
      case True
      then have "0 \<le> dq * t" using assms(3) by (simp add: dq_def)
      with True show ?thesis by (simp add: min_def)
    next
      case False
      then have "dq \<le> 0" by (simp add: dq_def)
      then have "dq * 1 \<le> dq * t" using assms(4) by (rule mult_left_mono_neg [rotated])
      with False show ?thesis by (simp add: min_def dq_def)
    qed
    show "dq * t \<le> of_int (max 0 d)"
    proof (cases "0 \<le> d")
      case True
      then have "dq * t \<le> dq * 1" using assms(4) by (intro mult_left_mono) (simp_all add: dq_def)
      with True show ?thesis by (simp add: max_def dq_def)
    next
      case False
      then have "dq \<le> 0" by (simp add: dq_def)
      then have "dq * t \<le> 0" using assms(3) by (simp add: mult_nonpos_nonneg)
      with False show ?thesis by (simp add: max_def)
    qed
  qed
  have m1: "\<bar>min 0 d\<bar> \<le> 2 ^ 53" using dn by arith
  have m2: "\<bar>max 0 d\<bar> \<le> 2 ^ 53" using dn by arith
  have pa: "\<bar>dq * t\<bar> \<le> 2 ^ 53"
  proof -
    have "- (2 ^ 53) \<le> (of_int (min 0 d) :: rat)" "(of_int (max 0 d) :: rat) \<le> 2 ^ 53"
      using of_int_abs_le_pow [OF m1] of_int_abs_le_pow [OF m2] by (simp_all add: abs_le_iff)
    with pb show ?thesis by (simp add: abs_le_iff)
  qed
  define p where "p = fl (dq * t)"
  from float_result_bracket [OF pb m1 m2]
  have p: "float_result (dq * t) = Inr p" "of_int (min 0 d) \<le> p" "p \<le> of_int (max 0 d)"
    by (simp_all add: p_def)
  have vb: "of_int (min start end') \<le> sq + p" "sq + p \<le> of_int (max start end')"
  proof -
    have "(of_int (min start end') :: rat) = sq + of_int (min 0 d)"
      by (simp add: min_def sq_def d_def)
    with p(2) show "of_int (min start end') \<le> sq + p" by simp
    have "(of_int (max start end') :: rat) = sq + of_int (max 0 d)"
      by (simp add: max_def sq_def d_def)
    with p(3) show "sq + p \<le> of_int (max start end')" by simp
  qed
  have m3: "\<bar>min start end'\<bar> \<le> 2 ^ 53" using assms(1,2) by (auto simp: min_def)
  have m4: "\<bar>max start end'\<bar> \<le> 2 ^ 53" using assms(1,2) by (auto simp: max_def)
  define v where "v = fl (sq + p)"
  from float_result_bracket [OF vb m3 m4]
  have v: "float_result (sq + p) = Inr v"
    "of_int (min start end') \<le> v" "v \<le> of_int (max start end')"
    by (simp_all add: v_def)
  have "interpolate start end' t = Inr (py_int v)"
    unfolding interpolate_def d_def [symmetric] by (simp add: d s p(1) v(1))
  with pa vb v(2,3) have "interpolate start end' t = Inr (py_int v)
       \<and> \<bar>dq * t\<bar> \<le> 2 ^ 53
       \<and> of_int (min start end') \<le> sq + p \<and> sq + p \<le> of_int (max start end')
       \<and> of_int (min start end') \<le> v \<and> v \<le> of_int (max start end')"
    by (intro conjI)
  then show ?thesis by (simp only: v_def p_def dq_def sq_def d_def)
qed

lemma interpolate_in_range:
  assumes "\<bar>start\<bar> \<le> 2 ^ 52" "\<bar>end'\<bar> \<le> 2 ^ 52" "0 \<le> t" "t \<le> 1"
  shows "\<exists>c. interpolate start end' t = Inr c \<and> min start end' \<le> c \<and> c \<le> max start end'"
proof -
  define v where "v = fl (of_int start + fl (of_int (end' - start) * t))"
  from interpolate_value [OF assms]
  have i: "interpolate start end' t = Inr (py_int v)"
    and b: "of_int (min start end') \<le> v" "v \<le> of_int (max start end')"
    by (simp_all only: v_def)
  from py_int_bracket [OF b] i show ?thesis by blast
qed

lemma interpolate_at_one:
  assumes "\<bar>start\<bar> \<le> 2 ^ 52" "\<bar>end'\<bar> \<le> 2 ^ 52"
  shows "interpolate start end' 1 = Inr end'"
proof -
  define d where "d = end' - start"
  define dq :: rat where "dq = of_int d"
  define sq :: rat where "sq = of_int start"
  define eq :: rat where "eq = of_int end'"
  have dn: "\<bar>d\<bar> \<le> 2 ^ 53" using assms by (simp add: d_def)
  have d: "int_to_float d = Inr dq" unfolding dq_def using dn by (rule int_to_float_small)
  have s: "int_to_float start = Inr sq"
    unfolding sq_def using assms(1) by (intro int_to_float_small) simp
  have p: "float_result dq = Inr dq"
    using float_result_bracket [of d dq d] dn fl_of_int [OF dn] by (simp add: dq_def)
  have en: "\<bar>end'\<bar> \<le> 2 ^ 53" using assms(2) by simp
  have "sq + dq = eq" by (simp add: sq_def dq_def eq_def d_def)
  moreover have "float_result eq = Inr eq"
    using float_result_bracket [of end' eq end'] en fl_of_int [OF en] by (simp add: eq_def)
  ultimately have v: "float_result (sq + dq) = Inr eq" by simp
  have "interpolate start end' 1 = Inr (py_int eq)"
    unfolding interpolate_def d_def [symmetric] by (simp add: d s p v)
  then show ?thesis by (simp add: eq_def py_int_of_int)
qed

lemma step_fraction:
  assumes "0 \<le> i" "i < steps"
  shows "\<exists>t. int_truediv (i + 1) steps = Inr t \<and> 0 \<le> t \<and> t \<le> 1 \<and> (i + 1 = steps \<longrightarrow> t = 1)"
proof -
  let ?q = "(of_int (i + 1) :: rat) / of_int steps"
  have sp: "(0::rat) < of_int steps" using assms by simp
  have q: "of_int 0 \<le> ?q" "?q \<le> of_int 1"
    using assms sp by (simp_all add: pos_divide_le_eq)
  from float_result_bracket [OF q] have f: "\<not> float_overflow (fl ?q)" "0 \<le> fl ?q" "fl ?q \<le> 1"
    by (simp_all add: float_result_def Let_def split: if_splits)
  have one: "i + 1 = steps \<longrightarrow> fl ?q = 1"
  proof
    assume "i + 1 = steps"
    then have "(of_int (i + 1) :: rat) = of_int steps" by simp
    then have "?q = 1" using sp by simp
    moreover have "fl 1 = 1" using fl_of_int [of 1] by simp
    ultimately show "fl ?q = 1" by simp
  qed
  have "int_truediv (i + 1) steps = Inr (fl ?q)"
    using assms f(1) by (simp add: int_truediv_def)
  with f(2,3) one show ?thesis by blast
qed

lemma drag_waypoint_in_box:
  assumes "\<bar>start_x\<bar> \<le> 2 ^ 52" "\<bar>start_y\<bar> \<le> 2 ^ 52" "\<bar>end_x\<bar> \<le> 2 ^ 52" "\<bar>end_y\<bar> \<le> 2 ^ 52"
    and "0 \<le> i" "i < steps"
  shows "\<exists>cx cy. drag_waypoint start_x start_y end_x end_y steps i = Inr (cx, cy)
           \<and> min start_x end_x \<le> cx \<and> cx \<le> max start_x end_x
           \<and> min start_y end_y \<le> cy \<and> cy \<le> max start_y end_y
           \<and> (i + 1 = steps \<longrightarrow> cx = end_x \<and> cy = end_y)"
proof -
  from step_fraction [OF assms(5,6)] obtain t where
    t: "int_truediv (i + 1) steps = Inr t" "0 \<le> t" "t \<le> 1" "i + 1 = steps \<longrightarrow> t = 1"
    by blast
  from interpolate_in_range [OF assms(1,3) t(2,3)] obtain cx where
    cx: "interpolate start_x end_x t = Inr cx" "min start_x end_x \<le> cx" "cx \<le> max start_x end_x"
    by blast
  from interpolate_in_range [OF assms(2,4) t(2,3)] obtain cy where
    cy: "interpolate start_y end_y t = Inr cy" "min start_y end_y \<le> cy" "cy \<le> max start_y end_y"
    by blast
  have last: "i + 1 = steps \<longrightarrow> cx = end_x \<and> cy = end_y"
    using t(4) cx(1) cy(1) interpolate_at_one [OF assms(1,3)] interpolate_at_one [OF assms(2,4)]
    by auto
  have "drag_waypoint start_x start_y end_x end_y steps i = Inr (cx, cy)"
    by (simp add: drag_waypoint_def t(1) cx(1) cy(1))
  with cx cy last show ?thesis by blast
qed

section \<open>Pointer coordinates\<close>

lemma py_int_small: "\<bar>v\<bar> < 1 \<Longrightarrow> py_int v = 0"
  by (auto simp: py_int_def floor_eq_iff ceiling_eq_iff)

lemma py_int_quotient:
  assumes "0 < b"
  shows "py_int (of_int a / of_int b) = toward_zero a b"
proof (cases "0 \<le> a")
  case True
  then have "0 \<le> (of_int a :: rat) / of_int b" using assms by simp
  then have "py_int (of_int a / of_int b) = a div b"
    by (simp add: py_int_def floor_divide_of_int_eq)
  also have "\<dots> = toward_zero a b"
    using True assms by (cases "a = 0") (simp_all add: toward_zero_def)
  finally show ?thesis .
next
  case False
  then have neg: "(of_int a :: rat) / of_int b < 0" using assms by (simp add: divide_neg_pos)
  have "\<lceil>(of_int a :: rat) / of_int b\<rceil> = - \<lfloor>of_int (- a) / (of_int b :: rat)\<rfloor>"
    by (simp add: ceiling_def)
  also have "\<dots> = - ((- a) div b)" by (simp only: floor_divide_of_int_eq)
  finally have "py_int (of_int a / of_int b) = - ((- a) div b)"
    using neg by (simp add: py_int_def)
  also have "\<dots> = toward_zero a b"
    using False assms by (simp add: toward_zero_def)
  finally show ?thesis .
qed

lemma two_powi_shift: "(2::rat) powi (e - int k) = 2 powi e / 2 ^ k"
proof -
  have "(2::rat) powi (e + - int k) = 2 powi e * 2 powi (- int k)"
    by (rule power_int_add) simp
  then show ?thesis by (simp only: two_powi_neg diff_conv_add_uminus) simp
qed

lemma ulp_le_relative:
  assumes "1 / 2 \<le> \<bar>x\<bar>"
  shows "ulp x \<le> \<bar>x\<bar> / 2 ^ 52"
proof -
  have x0: "x \<noteq> 0" using assms by auto
  have half: "(2::rat) powi (- int 1) = 1 / 2" by (simp only: two_powi_neg) simp
  have "\<not> float_exponent x < - 1"
  proof
    assume "float_exponent x < - 1"
    then have "float_exponent x + 1 \<le> - int 1" by simp
    from two_powi_mono [OF this] float_exponent_bounds [OF x0] assms
    show False unfolding half by linarith
  qed
  then have "max (float_exponent x) (- 1022) = float_exponent x" by simp
  then have "ulp x = 2 powi (float_exponent x - int 52)" by (simp add: ulp_def)
  also have "\<dots> = 2 powi float_exponent x / 2 ^ 52" by (rule two_powi_shift)
  also have "\<dots> \<le> \<bar>x\<bar> / 2 ^ 52"
    using float_exponent_bounds [OF x0] by (intro divide_right_mono) simp_all
  finally show ?thesis .
qed

lemma ulp_le_tiny:
  assumes "x \<noteq> 0" "\<bar>x\<bar> < 1 / 2"
  shows "ulp x \<le> 1 / 2 ^ 54"
proof -
  have half: "(2::rat) powi (- int 1) = 1 / 2" by (simp only: two_powi_neg) simp
  have "\<bar>x\<bar> < 2 powi (- int 1)" using assms(2) by (simp only: half)
  from float_exponent_less [OF assms(1) this] have "float_exponent x \<le> - 2" by simp
  then have "max (float_exponent x) (- 1022) - 52 \<le> - int 54" by simp
  from two_powi_mono [OF this] have "ulp x \<le> 2 powi (- int 54)" by (simp only: ulp_def)
  then show ?thesis by (simp only: two_powi_neg)
qed

lemma fl_integer_exact:
  assumes "b \<noteq> 0" "\<bar>a\<bar> < 2 ^ 53" "1 / 2 \<le> \<bar>(of_int a :: rat) / of_int b\<bar>"
    and "fl (of_int a / of_int b) = of_int m"
  shows "(of_int a :: rat) / of_int b = of_int m"
proof (rule ccontr)
  define q :: rat where "q = of_int a / of_int b"
  define k where "k = m * b - a"
  define B :: rat where "B = of_int \<bar>b\<bar>"
  assume "of_int a / of_int b \<noteq> (of_int m :: rat)"
  then have ne: "q \<noteq> of_int m" by (simp add: q_def)
  have bq: "(of_int b :: rat) \<noteq> 0" using assms(1) by simp
  have Bpos: "0 < B" using assms(1) by (simp add: B_def)
  have "of_int m - q = of_int k / of_int b" using bq by (simp add: q_def k_def field_simps)
  then have "\<bar>of_int m - q\<bar> = \<bar>of_int k :: rat\<bar> / B" by (simp add: B_def)
  moreover have "k \<noteq> 0"
  proof
    assume "k = 0"
    then have "a = m * b" by (simp add: k_def)
    then have "q = of_int m" using bq by (simp add: q_def)
    with ne show False by simp
  qed
  then have "(1::rat) \<le> \<bar>of_int k\<bar>" by (simp flip: of_int_abs)
  then have "1 / B \<le> \<bar>of_int k :: rat\<bar> / B" using Bpos by (intro divide_right_mono) simp_all
  ultimately have dist: "1 / B \<le> \<bar>of_int m - q\<bar>" by simp
  have qa: "\<bar>q\<bar> = of_int \<bar>a\<bar> / B" by (simp add: q_def B_def)
  have "\<bar>fl q - q\<bar> \<le> ulp q / 2" by (rule fl_error)
  also have "\<dots> \<le> (\<bar>q\<bar> / 2 ^ 52) / 2"
    using ulp_le_relative [of q] assms(3) by (simp add: q_def)
  also have "\<dots> = (of_int \<bar>a\<bar> / 2 ^ 53) / B" by (simp add: qa)
  also have "\<dots> < 1 / B"
  proof -
    have "(of_int \<bar>a\<bar> :: rat) < of_int (2 ^ 53)" using assms(2) by (simp only: of_int_less_iff)
    then have "(of_int \<bar>a\<bar> :: rat) / 2 ^ 53 < 1" by simp
    then show ?thesis using Bpos by (intro divide_strict_right_mono) simp_all
  qed
  finally have "\<bar>fl q - q\<bar> < 1 / B" .
  moreover have "fl q = of_int m" using assms(4) by (simp add: q_def)
  ultimately show False using dist by simp
qed

lemma quotient_abs_small:
  assumes "b \<noteq> 0" "\<bar>a\<bar> < 2 ^ 53"
  shows "\<bar>(of_int a :: rat) / of_int b\<bar> < 2 ^ 53"
proof -
  have "(1::rat) \<le> of_int \<bar>b\<bar>" using assms(1) by (simp flip: of_int_abs) 
  then have "(of_int \<bar>a\<bar> :: rat) / of_int \<bar>b\<bar> \<le> of_int \<bar>a\<bar> / 1"
    by (intro divide_left_mono) simp_all
  moreover have "(of_int \<bar>a\<bar> :: rat) < of_int (2 ^ 53)" using assms(2) by (simp only: of_int_less_iff)
  ultimately show ?thesis by simp
qed

lemma py_int_fl_quotient:
  assumes "b \<noteq> 0" "\<bar>a\<bar> < 2 ^ 53"
  shows "py_int (fl (of_int a / of_int b)) = py_int (of_int a / of_int b)"
proof -
  define q :: rat where "q = of_int a / of_int b"
  have small: "\<bar>q\<bar> < 2 ^ 53" unfolding q_def using assms by (rule quotient_abs_small)
  show ?thesis
  proof (cases "\<bar>q\<bar> < 1 / 2")
    case True
    have "\<bar>fl q\<bar> < 1"
    proof (cases "q = 0")
      case True
      then show ?thesis by (simp add: fl_def)
    next
      case False
      have "\<bar>fl q - q\<bar> \<le> ulp q / 2" by (rule fl_error)
      also have "\<dots> \<le> (1 / 2 ^ 54) / 2" using ulp_le_tiny [OF False True] by simp
      finally have "\<bar>fl q - q\<bar> < 1 / 2" by simp
      with True show ?thesis by linarith
    qed
    moreover have "\<bar>q\<bar> < 1" using True by simp
    ultimately show ?thesis by (simp add: py_int_small q_def [symmetric])
  next
    case False
    then have big: "1 / 2 \<le> \<bar>q\<bar>" by simp
    have exact: "q = of_int m" if "fl q = of_int m" for m
      using fl_integer_exact [OF assms big [unfolded q_def]] that by (simp add: q_def)
    show ?thesis
    proof (cases "0 \<le> q")
      case True
      define n where "n = \<lfloor>q\<rfloor>"
      have n: "of_int n \<le> q" "q < of_int n + 1" unfolding n_def by linarith+
      have lo: "of_int n \<le> fl q" using n(1) small by (rule fl_ge_int)
      have "q \<le> of_int (n + 1)" using n(2) by simp
      then have hi: "fl q \<le> of_int (n + 1)" using small by (rule fl_le_int)
      have "fl q \<noteq> of_int (n + 1)"
      proof
        assume "fl q = of_int (n + 1)"
        then have "q = of_int (n + 1)" by (rule exact)
        with n(2) show False by simp
      qed
      with hi have "fl q < of_int n + 1" by simp
      with lo have "\<lfloor>fl q\<rfloor> = n" by (simp add: floor_eq_iff)
      moreover have "0 \<le> fl q" using True by (rule fl_nonneg)
      ultimately show ?thesis using True by (simp add: py_int_def n_def q_def [symmetric])
    next
      case neg: False
      define n where "n = \<lceil>q\<rceil>"
      have n: "of_int n - 1 < q" "q \<le> of_int n" unfolding n_def by linarith+
      have hi: "fl q \<le> of_int n" using n(2) small by (rule fl_le_int)
      have "of_int (n - 1) \<le> q" using n(1) by simp
      then have lo: "of_int (n - 1) \<le> fl q" using small by (rule fl_ge_int)
      have "fl q \<noteq> of_int (n - 1)"
      proof
        assume "fl q = of_int (n - 1)"
        then have "q = of_int (n - 1)" by (rule exact)
        with n(1) show False by simp
      qed
      with lo have "of_int n - 1 < fl q" by simp
      with hi have c: "\<lceil>fl q\<rceil> = n" by (simp add: ceiling_eq_iff)
      have "fl q \<le> 0" using neg by (intro fl_nonpos) simp
      then have "py_int (fl q) = \<lceil>fl q\<rceil>" by (cases "fl q = 0") (simp_all add: py_int_def)
      with c show ?thesis using neg by (simp add: py_int_def n_def q_def [symmetric])
    qed
  qed
qed

lemma int_truediv_small:
  assumes "b \<noteq> 0" "\<bar>a\<bar> < 2 ^ 53"
  shows "\<exists>r. int_truediv a b = Inr r \<and> py_int r = py_int (of_int a / of_int b)"
proof -
  define q :: rat where "q = of_int a / of_int b"
  have small: "\<bar>q\<bar> < 2 ^ 53" unfolding q_def using assms by (rule quotient_abs_small)
  then have "of_int (- (2 ^ 53)) \<le> q" "q \<le> of_int (2 ^ 53)" by (simp_all add: abs_less_iff)
  from float_result_bracket [OF this] have "\<not> float_overflow (fl q)"
    by (simp add: float_result_def Let_def split: if_splits)
  then have "int_truediv a b = Inr (fl q)" using assms(1) by (simp add: int_truediv_def q_def)
  with py_int_fl_quotient [OF assms] show ?thesis by (simp add: q_def)
qed

lemma get_screen_size_run:
  "get_screen_size P w =
     (Inr (fst (get_system_metrics P 0 (os w)),
           fst (get_system_metrics P 1 (snd (get_system_metrics P 0 (os w))))),
      \<lparr>os = snd (get_system_metrics P 1 (snd (get_system_metrics P 0 (os w)))),
        trace = trace w @ [GetSystemMetrics 0, GetSystemMetrics 1]\<rparr>)"
  by (simp add: get_screen_size_def py_bind_def py_return_def syscall_def split: prod.splits)

lemma to_absolute_coords_run:
  assumes "get_screen_size P w = (Inr (W, H), w')" "W \<noteq> 0" "H \<noteq> 0"
    and "\<bar>x * 65535\<bar> < 2 ^ 53" "\<bar>y * 65535\<bar> < 2 ^ 53"
  shows "to_absolute_coords P x y w
           = (Inr (py_int (of_int (x * 65535) / of_int W), py_int (of_int (y * 65535) / of_int H)), w')"
proof -
  from int_truediv_small [OF assms(2,4)] obtain rx where
    rx: "int_truediv (x * 65535) W = Inr rx" "py_int rx = py_int (of_int (x * 65535) / of_int W)"
    by blast
  from int_truediv_small [OF assms(3,5)] obtain ry where
    ry: "int_truediv (y * 65535) H = Inr ry" "py_int ry = py_int (of_int (y * 65535) / of_int H)"
    by blast
  show ?thesis
    by (simp add: to_absolute_coords_def py_bind_def assms(1) lift_def rx ry py_return_def)
qed

lemma toward_zero_nonneg: "0 \<le> a \<Longrightarrow> 0 < b \<Longrightarrow> toward_zero a b = a div b"
  by (cases "a = 0") (simp_all add: toward_zero_def)

lemma toward_zero_neg: "a < 0 \<Longrightarrow> 0 < b \<Longrightarrow> toward_zero a b = - ((- a) div b)"
  by (simp add: toward_zero_def)

lemma toward_zero_mono:
  assumes "a \<le> a'" "0 < b"
  shows "toward_zero a b \<le> toward_zero a' b"
proof -
  consider "0 \<le> a" | "a < 0" "0 \<le> a'" | "a < 0" "a' < 0" using assms(1) by linarith
  then show ?thesis
  proof cases
    case 1
    then have "0 \<le> a'" using assms(1) by simp
    with 1 assms show ?thesis by (simp add: toward_zero_nonneg zdiv_mono1)
  next
    case 2
    have "0 \<le> (- a) div b" using 2(1) assms(2) by (simp add: pos_imp_zdiv_nonneg_iff)
    moreover have "0 \<le> a' div b" using 2(2) assms(2) by (simp add: pos_imp_zdiv_nonneg_iff)
    ultimately show ?thesis using 2 assms(2) by (simp add: toward_zero_nonneg toward_zero_neg)
  next
    case 3
    have "(- a') div b \<le> (- a) div b" using assms by (intro zdiv_mono1) simp_all
    with 3 assms(2) show ?thesis by (simp add: toward_zero_neg)
  qed
qed

lemma toward_zero_corner:
  assumes "0 < W"
  shows "toward_zero ((W - 1) * 65535) W = 65535 - \<lceil>(65535 :: rat) / of_int W\<rceil>"
proof -
  define c where "c = ((W - 1) * 65535) div W"
  have nn: "0 \<le> (W - 1) * 65535" using assms by simp
  have tz: "toward_zero ((W - 1) * 65535) W = c"
    using nn assms unfolding c_def by (rule toward_zero_nonneg)
  have m: "c * W + ((W - 1) * 65535) mod W = (W - 1) * 65535"
    unfolding c_def by (rule div_mult_mod_eq)
  have m0: "0 \<le> ((W - 1) * 65535) mod W" using assms by (rule pos_mod_sign)
  have m1: "((W - 1) * 65535) mod W < W" using assms by (rule pos_mod_bound)
  have lo: "c * W \<le> (W - 1) * 65535" using m m0 by linarith
  have "(W - 1) * 65535 < c * W + W" using m m1 by linarith
  then have hi: "(W - 1) * 65535 < (c + 1) * W" by (simp add: algebra_simps)
  have Wq: "(0::rat) < of_int W" using assms by simp
  have "(of_int (65535 - c) :: rat) * of_int W \<ge> 65535"
  proof -
    have "65535 \<le> (65535 - c) * W" using lo by (simp add: algebra_simps)
    then have "(of_int 65535 :: rat) \<le> of_int ((65535 - c) * W)" by (simp only: of_int_le_iff)
    then show ?thesis by simp
  qed
  then have a: "(65535 :: rat) / of_int W \<le> of_int (65535 - c)"
    using Wq by (simp add: pos_divide_le_eq)
  have "(of_int (65535 - c) - 1 :: rat) * of_int W < 65535"
  proof -
    have "(65535 - c - 1) * W < 65535" using hi by (simp add: algebra_simps)
    then have "(of_int ((65535 - c - 1) * W) :: rat) < of_int 65535" by (simp only: of_int_less_iff)
    then show ?thesis by simp
  qed
  then have b: "of_int (65535 - c) - 1 < (65535 :: rat) / of_int W"
    using Wq by (simp add: pos_less_divide_eq)
  from a b have "\<lceil>(65535 :: rat) / of_int W\<rceil> = 65535 - c" by (simp only: ceiling_eq_iff)
  with tz show ?thesis by simp
qed


lemma move_mouse_run:
  assumes "to_absolute_coords P x y w = (Inr (abs_x, abs_y), w')"
  shows "move_mouse P x y w =
           (Inr (),
            \<lparr>os = snd (send_input P
                  [\<lparr>type' = INPUT_MOUSE,
                     mi = \<lparr>dx = word_of_int abs_x, dy = word_of_int abs_y, mouseData = 0,
                            dwFlags = 0x8001, time = 0, dwExtraInfo = 0\<rparr>\<rparr>] (os w')),
              trace = trace w' @
                 [SendInput [\<lparr>type' = INPUT_MOUSE,
                     mi = \<lparr>dx = word_of_int abs_x, dy = word_of_int abs_y, mouseData = 0,
                            dwFlags = 0x8001, time = 0, dwExtraInfo = 0\<rparr>\<rparr>]]\<rparr>)"
  by (simp add: move_mouse_def py_bind_def assms send_input'_def syscall_def Let_def
      MOUSEEVENTF_MOVE_def MOUSEEVENTF_ABSOLUTE_def split: prod.splits)

text \<open>
  C1 (as amended). On a screen of positive width \<open>W\<close> and height \<open>H\<close>, for pixel
  coordinates with \<open>\<bar>pixel * 65535\<bar> < 2 ^ 53\<close>, \<^verbatim>\<open>_to_absolute_coords\<close> returns
  \<open>pixel * 65535 / dimension\<close> rounded toward zero (not to the nearest integer): the
  integer part of the rounded double quotient is that of the exact quotient. The width is
  used for x and the height for y; the mapping is monotonic in each coordinate; pixel
  \<open>(0, 0)\<close> maps to \<open>(0, 0)\<close>; pixel \<open>(W - 1, H - 1)\<close> maps to
  \<open>(65535 - \<lceil>65535 / W\<rceil>, 65535 - \<lceil>65535 / H\<rceil>)\<close>. \<^verbatim>\<open>move_mouse\<close> then sends one
  mouse input with the flags \<^verbatim>\<open>MOVE | ABSOLUTE\<close> and these two values.
\<close>

theorem to_absolute_coords_truncates:
  assumes "get_screen_size P w = (Inr (W, H), w')" "0 < W" "0 < H"
    and "\<bar>x * 65535\<bar> < 2 ^ 53" "\<bar>y * 65535\<bar> < 2 ^ 53"
  shows "to_absolute_coords P x y w
           = (Inr (toward_zero (x * 65535) W, toward_zero (y * 65535) H), w')
       \<and> (\<forall>x2 y2. x \<le> x2 \<and> y \<le> y2 \<and> \<bar>x2 * 65535\<bar> < 2 ^ 53 \<and> \<bar>y2 * 65535\<bar> < 2 ^ 53 \<longrightarrow>
            (\<exists>ax ay. to_absolute_coords P x2 y2 w = (Inr (ax, ay), w')
                \<and> toward_zero (x * 65535) W \<le> ax \<and> toward_zero (y * 65535) H \<le> ay))
       \<and> to_absolute_coords P 0 0 w = (Inr (0, 0), w')
       \<and> (\<bar>(W - 1) * 65535\<bar> < 2 ^ 53 \<and> \<bar>(H - 1) * 65535\<bar> < 2 ^ 53 \<longrightarrow>
            to_absolute_coords P (W - 1) (H - 1) w
              = (Inr (65535 - \<lceil>(65535 :: rat) / of_int W\<rceil>,
                      65535 - \<lceil>(65535 :: rat) / of_int H\<rceil>), w'))
       \<and> fst (move_mouse P x y w) = Inr ()
       \<and> trace (snd (move_mouse P x y w)) = trace w' @
            [SendInput [\<lparr>type' = INPUT_MOUSE,
               mi = \<lparr>dx = word_of_int (toward_zero (x * 65535) W),
                      dy = word_of_int (toward_zero (y * 65535) H), mouseData = 0,
                      dwFlags = 0x8001, time = 0, dwExtraInfo = 0\<rparr>\<rparr>]]"
proof -
  have W0: "W \<noteq> 0" and H0: "H \<noteq> 0" using assms(2,3) by simp_all
  have run: "to_absolute_coords P u v w
               = (Inr (toward_zero (u * 65535) W, toward_zero (v * 65535) H), w')"
    if "\<bar>u * 65535\<bar> < 2 ^ 53" "\<bar>v * 65535\<bar> < 2 ^ 53" for u v
    using to_absolute_coords_run [OF assms(1) W0 H0 that]
    by (simp only: py_int_quotient [OF assms(2)] py_int_quotient [OF assms(3)])
  have here: "to_absolute_coords P x y w
           = (Inr (toward_zero (x * 65535) W, toward_zero (y * 65535) H), w')"
    using assms(4,5) by (rule run)
  have mono: "\<forall>x2 y2. x \<le> x2 \<and> y \<le> y2 \<and> \<bar>x2 * 65535\<bar> < 2 ^ 53 \<and> \<bar>y2 * 65535\<bar> < 2 ^ 53 \<longrightarrow>
            (\<exists>ax ay. to_absolute_coords P x2 y2 w = (Inr (ax, ay), w')
                \<and> toward_zero (x * 65535) W \<le> ax \<and> toward_zero (y * 65535) H \<le> ay)"
  proof (intro allI impI)
    fix x2 y2
    assume a: "x \<le> x2 \<and> y \<le> y2 \<and> \<bar>x2 * 65535\<bar> < 2 ^ 53 \<and> \<bar>y2 * 65535\<bar> < 2 ^ 53"
    then have "to_absolute_coords P x2 y2 w
                 = (Inr (toward_zero (x2 * 65535) W, toward_zero (y2 * 65535) H), w')"
      by (intro run) simp_all
    moreover have "toward_zero (x * 65535) W \<le> toward_zero (x2 * 65535) W"
      using a assms(2) by (intro toward_zero_mono) simp_all
    moreover have "toward_zero (y * 65535) H \<le> toward_zero (y2 * 65535) H"
      using a assms(3) by (intro toward_zero_mono) simp_all
    ultimately show "\<exists>ax ay. to_absolute_coords P x2 y2 w = (Inr (ax, ay), w')
                \<and> toward_zero (x * 65535) W \<le> ax \<and> toward_zero (y * 65535) H \<le> ay"
      by blast
  qed
  have origin: "to_absolute_coords P 0 0 w = (Inr (0, 0), w')"
    using run [of 0 0] by (simp add: toward_zero_def)
  have corner: "\<bar>(W - 1) * 65535\<bar> < 2 ^ 53 \<and> \<bar>(H - 1) * 65535\<bar> < 2 ^ 53 \<longrightarrow>
            to_absolute_coords P (W - 1) (H - 1) w
              = (Inr (65535 - \<lceil>(65535 :: rat) / of_int W\<rceil>,
                      65535 - \<lceil>(65535 :: rat) / of_int H\<rceil>), w')"
    using run [of "W - 1" "H - 1"] toward_zero_corner [OF assms(2)] toward_zero_corner [OF assms(3)]
    by simp
  from move_mouse_run [OF here]
  have mv: "fst (move_mouse P x y w) = Inr ()"
    "trace (snd (move_mouse P x y w)) = trace w' @
            [SendInput [\<lparr>type' = INPUT_MOUSE,
               mi = \<lparr>dx = word_of_int (toward_zero (x * 65535) W),
                      dy = word_of_int (toward_zero (y * 65535) H), mouseData = 0,
                      dwFlags = 0x8001, time = 0, dwExtraInfo = 0\<rparr>\<rparr>]]"
    by simp_all
  from here mono origin corner mv show ?thesis by (intro conjI)
qed

lemma demo_screen:
  "get_screen_size demo_platform demo_world
     = (Inr (1920, 1080), \<lparr>os = 0, trace = [GetSystemMetrics 0, GetSystemMetrics 1]\<rparr>)"
  by (simp add: get_screen_size_run demo_platform_def demo_world_def)

theorem to_absolute_coords_truncates_witness:
  "fst (to_absolute_coords demo_platform 960 540 demo_world) = Inr (32767, 32767)
   \<and> fst (to_absolute_coords demo_platform 0 0 demo_world) = Inr (0, 0)
   \<and> fst (to_absolute_coords demo_platform 1919 1079 demo_world) = Inr (65500, 65474)
   \<and> trace (snd (move_mouse demo_platform 960 540 demo_world)) =
        [GetSystemMetrics 0, GetSystemMetrics 1,
         SendInput [\<lparr>type' = INPUT_MOUSE,
            mi = \<lparr>dx = 32767, dy = 32767, mouseData = 0,
                   dwFlags = 0x8001, time = 0, dwExtraInfo = 0\<rparr>\<rparr>]]"
proof -
  have a: "\<bar>960 * 65535 :: int\<bar> < 2 ^ 53" "\<bar>540 * 65535 :: int\<bar> < 2 ^ 53" by simp_all
  have c: "\<lceil>(65535 :: rat) / of_int 1920\<rceil> = 35" "\<lceil>(65535 :: rat) / of_int 1080\<rceil> = 61"
    by (simp_all add: ceiling_eq_iff)
  have t: "toward_zero (960 * 65535) 1920 = 32767" "toward_zero (540 * 65535) 1080 = 32767"
    by (simp_all add: toward_zero_def)
  show ?thesis
    using to_absolute_coords_truncates [OF demo_screen _ _ a] c t
    by simp
qed

text \<open>
  The claim as stated, with rounding to the nearest integer, fails on the 1920 by 1080
  screen at pixel \<open>x = 4\<close>: \<open>4 * 65535 / 1920 = 136.53125\<close>, the code returns 136,
  the nearest integer is 137.
\<close>

theorem to_absolute_coords_round_counterexample:
  "fst (to_absolute_coords demo_platform 4 0 demo_world) = Inr (136, 0)
   \<and> round ((4 :: rat) * 65535 / 1920) = 137
   \<and> fst (to_absolute_coords demo_platform 4 0 demo_world)
        \<noteq> Inr (round ((4 :: rat) * 65535 / 1920), round ((0 :: rat) * 65535 / 1080))"
proof -
  have "to_absolute_coords demo_platform 4 0 demo_world
          = (Inr (py_int (of_int (4 * 65535) / of_int 1920), py_int (of_int (0 * 65535) / of_int 1080)),
             \<lparr>os = 0, trace = [GetSystemMetrics 0, GetSystemMetrics 1]\<rparr>)"
    by (rule to_absolute_coords_run [OF demo_screen]) simp_all
  moreover have "py_int (of_int (4 * 65535) / of_int 1920) = 136"
    by (simp add: py_int_def floor_eq_iff)
  moreover have r: "round ((4 :: rat) * 65535 / 1920) = 137"
    by (simp add: round_def floor_eq_iff)
  ultimately show ?thesis by (simp add: py_int_def)
qed

section \<open>Drag\<close>

lemma fl_eval:
  assumes "2 powi e \<le> \<bar>x\<bar>" "\<bar>x\<bar> < 2 powi (e + 1)" "- 1022 \<le> e"
  shows "fl x = of_int (round_half_even (x / 2 powi (e - 52))) * 2 powi (e - 52)"
proof -
  have e: "float_exponent x = e" using assms(1,2) by (rule float_exponent_unique)
  have "0 < \<bar>x\<bar>" using assms(1) two_powi_pos [of e] by linarith
  then have "x \<noteq> 0" by simp
  then show ?thesis using assms(3) by (simp add: fl_def ulp_def e max_def)
qed

lemma two_powi_values: "(2::rat) powi (- 2) = 1 / 4" "(2::rat) powi (- 1) = 1 / 2" "(2::rat) powi (- 54) = 1 / 2 ^ 54"
  "(2::rat) powi (- 48) = 1 / 2 ^ 48"
  using two_powi_neg [of 2] two_powi_neg [of 1] two_powi_neg [of 54] two_powi_neg [of 48] by simp_all

lemma round_half_even_nearest:
  assumes "of_int n - 1 / 2 < x" "x < of_int n + 1 / 2"
  shows "round_half_even x = n"
proof (cases "of_int n \<le> x")
  case True
  then have f: "\<lfloor>x\<rfloor> = n" using assms(2) by (simp add: floor_eq_iff)
  then have "x - of_int \<lfloor>x\<rfloor> < 1 / 2" using assms(2) by simp
  then show ?thesis using f by (simp add: round_half_even_def Let_def)
next
  case False
  then have f: "\<lfloor>x\<rfloor> = n - 1" using assms(1) by (simp add: floor_eq_iff)
  then have "1 / 2 < x - of_int \<lfloor>x\<rfloor>" using assms(1) by simp
  then show ?thesis using f by (simp add: round_half_even_def Let_def)
qed

lemma fl_29_100: "fl (29 / 100) = 5224175567749775 / 2 ^ 54"
proof -
  have "fl (29 / 100) = of_int (round_half_even ((29 / 100) / 2 powi (- 2 - 52))) * 2 powi (- 2 - 52)"
    by (rule fl_eval) (simp_all add: two_powi_values)
  also have "(29 / 100) / (2::rat) powi (- 2 - 52) = 130604389193744384 / 25"
    by (simp add: two_powi_values)
  also have "round_half_even (130604389193744384 / 25) = 5224175567749775"
    by (rule round_half_even_nearest) simp_all
  finally show ?thesis by (simp add: two_powi_values)
qed

lemma fl_100_times_t: "fl (100 * (5224175567749775 / 2 ^ 54)) = 8162774324609023 / 2 ^ 48"
proof -
  have "fl (100 * (5224175567749775 / 2 ^ 54))
      = of_int (round_half_even ((100 * (5224175567749775 / 2 ^ 54)) / 2 powi (4 - 52))) * 2 powi (4 - 52)"
    by (rule fl_eval) (simp_all)
  also have "(100 * (5224175567749775 / 2 ^ 54)) / (2::rat) powi (4 - 52) = 130604389193744375 / 16"
    by (simp add: two_powi_values)
  also have "round_half_even (130604389193744375 / 16) = 8162774324609023"
    by (rule round_half_even_nearest) simp_all
  finally show ?thesis by (simp add: two_powi_values)
qed

lemma py_bind_return_left: "py_bind (py_return x) f = f x"
  by (rule ext) (simp add: py_bind_def py_return_def)

lemma py_bind_return_right: "py_bind m py_return = m"
  by (rule ext) (simp add: py_bind_def py_return_def split: prod.splits sum.splits)

lemma py_bind_lift_Inr: "py_bind (lift (Inr x)) f = f x"
  by (rule ext) (simp add: py_bind_def lift_def)

lemma py_for_append:
  "py_for (xs @ ys) body = py_bind (py_for xs body) (\<lambda>_. py_for ys body)"
  by (induction xs) (simp_all add: py_bind_return_left py_bind_assoc)

lemma py_bind_unit_return: "py_bind m (\<lambda>_. py_return ()) = (m :: (unit, 'os) prog)"
  by (rule ext) (simp add: py_bind_def py_return_def split: prod.splits sum.splits)

lemma pointer_after_append:
  "pointer_after p (xs @ ys) = pointer_after (pointer_after p xs) ys"
  by (induction xs arbitrary: p) simp_all

lemma drag_loop_script:
  assumes "\<forall>i < n. drag_waypoint start_x start_y end_x end_y steps (int i) = Inr (waypoints ! i)"
    and "n \<le> length waypoints"
    and "float_div_int duration steps = Inr pause"
  shows "py_for (map int [0..<n]) (drag_body P start_x start_y end_x end_y duration steps)
           = py_for (concat (map (\<lambda>(x, y). [MoveTo x y, Wait pause]) (take n waypoints))) (perform P)"
  using assms(1,2)
proof (induction n)
  case 0
  show ?case by simp
next
  case (Suc n)
  obtain cx cy where w: "waypoints ! n = (cx, cy)" by (cases "waypoints ! n")
  have wp: "drag_waypoint start_x start_y end_x end_y steps (int n) = Inr (cx, cy)"
    using Suc.prems(1) w by simp
  have body: "drag_body P start_x start_y end_x end_y duration steps (int n)
                = py_for [MoveTo cx cy, Wait pause] (perform P)"
    by (simp add: drag_body_def wp assms(3) py_bind_lift_Inr py_bind_unit_return
        py_bind_return_right)
  have IH: "py_for (map int [0..<n]) (drag_body P start_x start_y end_x end_y duration steps)
           = py_for (concat (map (\<lambda>(x, y). [MoveTo x y, Wait pause]) (take n waypoints))) (perform P)"
    using Suc.prems by (intro Suc.IH) simp_all
  have t: "take (Suc n) waypoints = take n waypoints @ [(cx, cy)]"
    using Suc.prems(2) w by (simp add: take_Suc_conv_app_nth)
  have "py_for (map int [0..<Suc n]) (drag_body P start_x start_y end_x end_y duration steps)
      = py_bind (py_for (map int [0..<n]) (drag_body P start_x start_y end_x end_y duration steps))
          (\<lambda>_. py_for [int n] (drag_body P start_x start_y end_x end_y duration steps))"
    by (simp add: py_for_append del: py_for.simps)
  also have "py_for [int n] (drag_body P start_x start_y end_x end_y duration steps)
      = py_for [MoveTo cx cy, Wait pause] (perform P)"
    by (simp add: body py_bind_unit_return py_bind_return_right del: perform.simps)
  finally show ?case
    by (simp only: IH t map_append concat_append py_for_append list.map concat.simps
        append_Nil2 case_prod_conv)
qed

lemma drag_steps_ok:
  assumes "0 \<le> duration" "duration * 60 \<le> 2 ^ 53"
  shows "drag_steps duration = Inr (max 10 (py_int (fl (duration * 60))))
       \<and> 10 \<le> max 10 (py_int (fl (duration * 60)))
       \<and> max 10 (py_int (fl (duration * 60))) \<le> 2 ^ 53"
proof -
  have "of_int 0 \<le> duration * 60" "duration * 60 \<le> of_int (2 ^ 53)" using assms by simp_all
  from float_result_bracket [OF this]
  have r: "float_result (duration * 60) = Inr (fl (duration * 60))"
    "of_int 0 \<le> fl (duration * 60)" "fl (duration * 60) \<le> of_int (2 ^ 53)"
    by simp_all
  from py_int_bracket [OF r(2,3)] have "py_int (fl (duration * 60)) \<le> 2 ^ 53" by simp
  then show ?thesis by (simp add: drag_steps_def r(1))
qed

lemma pause_ok:
  assumes "0 \<le> duration" "duration \<le> 2 ^ 53" "10 \<le> steps" "steps \<le> 2 ^ 53"
  shows "\<exists>pause. float_div_int duration steps = Inr pause \<and> 0 \<le> pause"
proof -
  define sq :: rat where "sq = of_int steps"
  have sn: "\<bar>steps\<bar> \<le> 2 ^ 53" using assms(3,4) by simp
  have s: "int_to_float steps = Inr sq" unfolding sq_def using sn by (rule int_to_float_small)
  have sq1: "1 \<le> sq" using assms(3) by (simp add: sq_def)
  then have "duration / sq \<le> duration / 1" using assms(1) by (intro divide_left_mono) simp_all
  then have "of_int 0 \<le> duration / sq" "duration / sq \<le> of_int (2 ^ 53)"
    using assms(1,2) sq1 by simp_all
  from float_result_bracket [OF this]
  have "float_result (duration / sq) = Inr (fl (duration / sq))" "0 \<le> fl (duration / sq)"
    by simp_all
  moreover have "sq \<noteq> 0" using sq1 by simp
  ultimately show ?thesis by (simp add: float_div_int_def s)
qed

lemma perform_all_Drag_script:
  "perform_all P (Drag_script sx sy ex ey waypoints pause) =
     py_bind (move_mouse P sx sy) (\<lambda>_.
     py_bind (time_sleep P (fl (1 / 20))) (\<lambda>_.
     py_bind (mouse_down P True) (\<lambda>_.
     py_bind (time_sleep P (fl (1 / 20))) (\<lambda>_.
     py_bind (py_for (concat (map (\<lambda>(x, y). [MoveTo x y, Wait pause]) waypoints)) (perform P)) (\<lambda>_.
     py_bind (move_mouse P ex ey) (\<lambda>_.
     py_bind (time_sleep P (fl (1 / 20))) (\<lambda>_.
       mouse_up P True)))))))"
  by (simp add: perform_all_def Drag_script_def py_for_append py_bind_return_right)

lemma drag_refines_script:
  assumes "drag_steps duration = Inr steps"
    and "length waypoints = nat steps"
    and "\<forall>i < nat steps. drag_waypoint start_x start_y end_x end_y steps (int i) = Inr (waypoints ! i)"
    and "float_div_int duration steps = Inr pause"
  shows "drag P start_x start_y end_x end_y duration
           = perform_all P (Drag_script start_x start_y end_x end_y waypoints pause)"
proof -
  have "py_for (map int [0..<nat steps]) (drag_body P start_x start_y end_x end_y duration steps)
      = py_for (concat (map (\<lambda>(x, y). [MoveTo x y, Wait pause]) (take (nat steps) waypoints)))
          (perform P)"
    using assms(3) _ assms(4) by (rule drag_loop_script) (simp add: assms(2))
  then have loop: "py_for (map int [0..<nat steps]) (drag_body P start_x start_y end_x end_y duration steps)
      = py_for (concat (map (\<lambda>(x, y). [MoveTo x y, Wait pause]) waypoints)) (perform P)"
    by (simp add: assms(2))
  show ?thesis
    unfolding perform_all_Drag_script drag_def assms(1) py_bind_lift_Inr loop ..
qed

lemma pointer_after_Drag_script:
  "pointer_after p (Drag_script sx sy ex ey waypoints pause) = Some (ex, ey)"
  by (simp add: Drag_script_def pointer_after_append)

lemma to_absolute_coords_ok:
  assumes "\<forall>s. fst (get_system_metrics P 0 s) \<noteq> 0 \<and> fst (get_system_metrics P 1 s) \<noteq> 0"
    and "\<bar>x\<bar> \<le> 2 ^ 52" "\<bar>y\<bar> \<le> 2 ^ 52"
  shows "\<exists>p. fst (to_absolute_coords P x y w) = Inr p"
proof -
  define W where "W = fst (get_system_metrics P 0 (os w))"
  define H where "H = fst (get_system_metrics P 1 (snd (get_system_metrics P 0 (os w))))"
  have W0: "W \<noteq> 0" and H0: "H \<noteq> 0" using assms(1) by (simp_all add: W_def H_def)
  have quot: "\<exists>r. int_truediv (c * 65535) D = Inr r" if "D \<noteq> 0" "\<bar>c\<bar> \<le> 2 ^ 52" for c D :: int
  proof -
    have "\<bar>c * 65535\<bar> \<le> 2 ^ 52 * 2 ^ 16"
      using that(2) by (simp add: abs_mult) 
    then have "(of_int \<bar>c * 65535\<bar> :: rat) \<le> of_int (2 ^ 52 * 2 ^ 16)" by (simp only: of_int_le_iff)
    then have n: "\<bar>of_int (c * 65535) :: rat\<bar> \<le> 2 ^ 68" by simp
    have "(1::rat) \<le> \<bar>of_int D\<bar>" using that(1) by (simp flip: of_int_abs)
    then have "\<bar>of_int (c * 65535) :: rat\<bar> / \<bar>of_int D\<bar> \<le> \<bar>of_int (c * 65535)\<bar> / 1"
      by (intro divide_left_mono) simp_all
    with n have "\<bar>(of_int (c * 65535) :: rat) / of_int D\<bar> \<le> 2 powi 68" by simp
    then have "\<not> float_overflow (fl (of_int (c * 65535) / of_int D))"
      by (rule no_overflow_two_powi) simp_all
    then show ?thesis using that(1) by (simp add: int_truediv_def)
  qed
  from quot [OF W0 assms(2)] obtain rx where rx: "int_truediv (x * 65535) W = Inr rx" by blast
  from quot [OF H0 assms(3)] obtain ry where ry: "int_truediv (y * 65535) H = Inr ry" by blast
  show ?thesis
    by (simp add: to_absolute_coords_def py_bind_def get_screen_size_run lift_def py_return_def
        rx [unfolded W_def] ry [unfolded H_def])
qed

lemma move_mouse_ok:
  assumes "\<forall>s. fst (get_system_metrics P 0 s) \<noteq> 0 \<and> fst (get_system_metrics P 1 s) \<noteq> 0"
    and "\<bar>x\<bar> \<le> 2 ^ 52" "\<bar>y\<bar> \<le> 2 ^ 52"
  shows "fst (move_mouse P x y w) = Inr ()"
proof -
  from to_absolute_coords_ok [OF assms, of w] obtain p where
    "fst (to_absolute_coords P x y w) = Inr p" by blast
  then obtain ax ay w' where "to_absolute_coords P x y w = (Inr (ax, ay), w')"
    by (cases "to_absolute_coords P x y w"; cases p) simp
  from move_mouse_run [OF this] show ?thesis by simp
qed

lemma time_sleep_ok: "0 \<le> secs \<Longrightarrow> fst (time_sleep P secs w) = Inr ()"
  by (simp add: time_sleep_def syscall_def split: prod.splits)

lemma mouse_button_ok: "fst (mouse_down P b w) = Inr ()" "fst (mouse_up P b w) = Inr ()"
  by (simp_all add: mouse_down_def mouse_up_def send_input'_def syscall_def Let_def
      split: prod.splits)

lemma py_for_ok:
  assumes "\<forall>a \<in> set xs. \<forall>w. fst (body a w) = Inr ()"
  shows "fst (py_for xs body w) = Inr ()"
  using assms
proof (induction xs arbitrary: w)
  case Nil
  show ?case by (simp add: py_return_def)
next
  case (Cons a xs)
  obtain w1 where "body a w = (Inr (), w1)"
    using Cons.prems by (cases "body a w") (metis fst_conv list.set_intros(1))
  then show ?case using Cons by (simp add: py_bind_def)
qed

lemma fl_near:
  assumes "\<bar>x\<bar> < 2 powi k" "- 1021 \<le> k"
  shows "\<bar>fl x - x\<bar> \<le> 2 powi (k - 54)"
proof (cases "x = 0")
  case True
  then show ?thesis using two_powi_pos [of "k - 54"] by (simp add: fl_def)
next
  case False
  from float_exponent_less [OF False assms(1)] have "float_exponent x < k" .
  with assms(2) have "max (float_exponent x) (- 1022) - 52 \<le> k - 53" by simp
  from two_powi_mono [OF this] have u: "ulp x \<le> 2 powi (k - 53)" by (simp only: ulp_def)
  have "(2::rat) powi ((k - 54) + 1) = 2 powi (k - 54) * 2 powi 1"
    by (rule power_int_add) simp
  then have "(2::rat) powi (k - 53) = 2 powi (k - 54) * 2" by (simp add: algebra_simps)
  with fl_error [of x] u show ?thesis by linarith
qed

lemma py_int_mono:
  assumes "x \<le> y"
  shows "py_int x \<le> py_int y"
proof -
  consider "0 \<le> x" | "x < 0" "0 \<le> y" | "y < 0" by linarith
  then show ?thesis
  proof cases
    case 1
    then show ?thesis using assms by (simp add: py_int_def floor_mono)
  next
    case 2
    then have "\<lceil>x\<rceil> \<le> 0" "0 \<le> \<lfloor>y\<rfloor>" by (simp_all add: ceiling_le_zero)
    then have "\<lceil>x\<rceil> \<le> \<lfloor>y\<rfloor>" by (rule order_trans)
    with 2 show ?thesis by (simp add: py_int_def)
  next
    case 3
    then show ?thesis using assms by (simp add: py_int_def ceiling_mono)
  qed
qed

lemma py_int_add_two: "py_int (x + 2) \<le> py_int x + 2"
  unfolding py_int_def by (auto split: if_splits)

lemma py_int_near:
  assumes "\<bar>v - e\<bar> \<le> 2"
  shows "\<bar>py_int v - py_int e\<bar> \<le> 2"
proof -
  have "v \<le> e + 2" "e \<le> v + 2" using assms by linarith+
  from py_int_mono [OF this(1)] py_int_mono [OF this(2)]
    py_int_add_two [of e] py_int_add_two [of v]
  show ?thesis by linarith
qed

lemma interpolate_near:
  assumes "\<bar>start\<bar> \<le> 2 ^ 52" "\<bar>end'\<bar> \<le> 2 ^ 52" "0 \<le> t" "t \<le> 1"
    and "\<bar>t - q\<bar> \<le> 1 / 2 ^ 54"
  shows "\<bar>fl (of_int start + fl (of_int (end' - start) * t))
            - (of_int start + of_int (end' - start) * q)\<bar> \<le> 2"
proof -
  define dq :: rat where "dq = of_int (end' - start)"
  define sq :: rat where "sq = of_int start"
  define p where "p = fl (dq * t)"
  define v where "v = fl (sq + p)"
  define B :: rat where "B = 2 ^ 53"
  define C :: rat where "C = 2 ^ 52"
  from interpolate_value [OF assms(1-4)]
  have pa: "\<bar>dq * t\<bar> \<le> B"
    and vb: "of_int (min start end') \<le> sq + p" "sq + p \<le> of_int (max start end')"
    by (simp_all only: dq_def sq_def p_def B_def)
  have "\<bar>end' - start\<bar> \<le> 2 ^ 53" using assms(1,2) by simp
  from of_int_abs_le_pow [OF this] have dn: "\<bar>dq\<bar> \<le> B" by (simp only: dq_def B_def)
  have B54: "B < 2 powi 54" "B * (1 / 2 ^ 54) = 1 / 2" "C < 2 powi 53" by (simp_all add: B_def C_def)
  have a: "\<bar>dq * t - dq * q\<bar> \<le> 1 / 2"
  proof -
    have "\<bar>dq * t - dq * q\<bar> = \<bar>dq\<bar> * \<bar>t - q\<bar>"
      by (simp only: right_diff_distrib [symmetric] abs_mult)
    also have "\<dots> \<le> B * (1 / 2 ^ 54)"
      using dn assms(5) by (intro mult_mono) simp_all
    finally show ?thesis by (simp only: B54(2))
  qed
  have b: "\<bar>p - dq * t\<bar> \<le> 1"
  proof -
    have "\<bar>dq * t\<bar> < 2 powi 54" using pa B54(1) by (rule le_less_trans)
    from fl_near [OF this] show ?thesis by (simp add: p_def)
  qed
  have c: "\<bar>v - (sq + p)\<bar> \<le> 1 / 2"
  proof -
    have "- C \<le> (of_int (min start end') :: rat)" "(of_int (max start end') :: rat) \<le> C"
      using of_int_abs_le_pow [of "min start end'" 52] of_int_abs_le_pow [of "max start end'" 52] assms(1,2)
      by (auto simp: C_def abs_le_iff min_def max_def)
    with vb have "\<bar>sq + p\<bar> \<le> C" by (simp add: abs_le_iff)
    then have "\<bar>sq + p\<bar> < 2 powi 53" using B54(3) by (rule le_less_trans)
    from fl_near [OF this] show ?thesis by (simp add: v_def two_powi_values)
  qed
  have "\<bar>v - (sq + dq * q)\<bar> \<le> 2" using a b c by linarith
  then show ?thesis by (simp only: v_def p_def dq_def sq_def)
qed

lemma step_fraction_value:
  assumes "0 \<le> i" "i < steps"
  shows "int_truediv (i + 1) steps = Inr (fl (of_int (i + 1) / of_int steps))
       \<and> 0 \<le> fl (of_int (i + 1) / of_int steps) \<and> fl (of_int (i + 1) / of_int steps) \<le> 1
       \<and> \<bar>fl (of_int (i + 1) / of_int steps) - of_int (i + 1) / of_int steps\<bar> \<le> 1 / 2 ^ 54"
proof -
  define q :: rat where "q = of_int (i + 1) / of_int steps"
  have sp: "(0::rat) < of_int steps" using assms by simp
  have q: "of_int 0 \<le> q" "q \<le> of_int 1"
    using assms sp by (simp_all add: q_def pos_divide_le_eq)
  from float_result_bracket [OF q] have f: "\<not> float_overflow (fl q)" "0 \<le> fl q" "fl q \<le> 1"
    by (simp_all add: float_result_def Let_def split: if_splits)
  have near: "\<bar>fl q - q\<bar> \<le> 1 / 2 ^ 54"
  proof (cases "i + 1 = steps")
    case True
    then have "(of_int (i + 1) :: rat) = of_int steps" by simp
    then have "q = 1" using sp by (simp add: q_def)
    moreover have "fl 1 = 1" using fl_of_int [of 1] by simp
    ultimately show ?thesis by simp
  next
    case False
    then have "i + 1 < steps" using assms by simp
    then have "(of_int (i + 1) :: rat) < of_int steps" by (simp only: of_int_less_iff)
    then have "q < 1" using sp by (simp add: q_def)
    then have "\<bar>q\<bar> < 2 powi 0" using q(1) by simp
    from fl_near [OF this] show ?thesis by (simp add: two_powi_values)
  qed
  have "int_truediv (i + 1) steps = Inr (fl q)"
    using assms f(1) by (simp add: int_truediv_def q_def)
  with f(2,3) near have "int_truediv (i + 1) steps = Inr (fl q)
       \<and> 0 \<le> fl q \<and> fl q \<le> 1 \<and> \<bar>fl q - q\<bar> \<le> 1 / 2 ^ 54"
    by (intro conjI)
  then show ?thesis by (simp only: q_def)
qed

lemma drag_waypoint_value:
  assumes "\<bar>start_x\<bar> \<le> 2 ^ 52" "\<bar>start_y\<bar> \<le> 2 ^ 52" "\<bar>end_x\<bar> \<le> 2 ^ 52" "\<bar>end_y\<bar> \<le> 2 ^ 52"
    and "0 \<le> i" "i < steps"
  shows "drag_waypoint start_x start_y end_x end_y steps i =
     Inr (py_int (fl (of_int start_x
                      + fl (of_int (end_x - start_x) * fl (of_int (i + 1) / of_int steps)))),
          py_int (fl (of_int start_y
                      + fl (of_int (end_y - start_y) * fl (of_int (i + 1) / of_int steps)))))"
proof -
  define t where "t = fl ((of_int (i + 1) :: rat) / of_int steps)"
  from step_fraction_value [OF assms(5,6)]
  have t: "int_truediv (i + 1) steps = Inr t" "0 \<le> t" "t \<le> 1" by (simp_all only: t_def)
  from interpolate_value [OF assms(1,3) t(2,3)]
  have x: "interpolate start_x end_x t
             = Inr (py_int (fl (of_int start_x + fl (of_int (end_x - start_x) * t))))" by (rule conjunct1)
  from interpolate_value [OF assms(2,4) t(2,3)]
  have y: "interpolate start_y end_y t
             = Inr (py_int (fl (of_int start_y + fl (of_int (end_y - start_y) * t))))" by (rule conjunct1)
  have "drag_waypoint start_x start_y end_x end_y steps i =
     Inr (py_int (fl (of_int start_x + fl (of_int (end_x - start_x) * t))),
          py_int (fl (of_int start_y + fl (of_int (end_y - start_y) * t))))"
    unfolding drag_waypoint_def by (simp only: t(1) x y sum.case)
  then show ?thesis by (simp only: t_def)
qed

lemma waypoint_near_exact:
  assumes "\<bar>start\<bar> \<le> 2 ^ 52" "\<bar>end'\<bar> \<le> 2 ^ 52" "0 \<le> i" "i < steps"
  shows "\<bar>py_int (fl (of_int start
                        + fl (of_int (end' - start) * fl (of_int (i + 1) / of_int steps))))
          - toward_zero (start * steps + (end' - start) * (i + 1)) steps\<bar> \<le> 2"
proof -
  define q :: rat where "q = of_int (i + 1) / of_int steps"
  define t where "t = fl q"
  define a where "a = start * steps + (end' - start) * (i + 1)"
  define v where "v = fl (of_int start + fl (of_int (end' - start) * t))"
  have sp: "0 < steps" using assms(3,4) by simp
  from step_fraction_value [OF assms(3,4)]
  have t: "0 \<le> t" "t \<le> 1" "\<bar>t - q\<bar> \<le> 1 / 2 ^ 54" by (simp_all only: t_def q_def)
  from interpolate_near [OF assms(1,2) t]
  have "\<bar>v - (of_int start + of_int (end' - start) * q)\<bar> \<le> 2" by (simp only: v_def)
  moreover have "of_int start + of_int (end' - start) * q = (of_int a :: rat) / of_int steps"
    using sp by (simp add: q_def a_def field_simps)
  ultimately have "\<bar>v - of_int a / of_int steps\<bar> \<le> 2" by simp
  from py_int_near [OF this] have "\<bar>py_int v - toward_zero a steps\<bar> \<le> 2"
    by (simp only: py_int_quotient [OF sp])
  then show ?thesis by (simp only: v_def t_def q_def a_def)
qed

lemma drag_waypoints_list:
  assumes "\<bar>start_x\<bar> \<le> 2 ^ 52" "\<bar>start_y\<bar> \<le> 2 ^ 52" "\<bar>end_x\<bar> \<le> 2 ^ 52" "\<bar>end_y\<bar> \<le> 2 ^ 52"
    and "0 < steps"
  shows "\<exists>waypoints. length waypoints = nat steps
     \<and> (\<forall>i < nat steps. drag_waypoint start_x start_y end_x end_y steps (int i) = Inr (waypoints ! i)
            \<and> \<bar>fst (waypoints ! i)\<bar> \<le> 2 ^ 52 \<and> \<bar>snd (waypoints ! i)\<bar> \<le> 2 ^ 52)
     \<and> last waypoints = (end_x, end_y)"
proof -
  define waypoints where
    "waypoints = map (\<lambda>i. projr (drag_waypoint start_x start_y end_x end_y steps (int i))) [0..<nat steps]"
  have len: "length waypoints = nat steps" by (simp add: waypoints_def)
  have each: "drag_waypoint start_x start_y end_x end_y steps (int i) = Inr (waypoints ! i)
            \<and> \<bar>fst (waypoints ! i)\<bar> \<le> 2 ^ 52 \<and> \<bar>snd (waypoints ! i)\<bar> \<le> 2 ^ 52
            \<and> (int i + 1 = steps \<longrightarrow> waypoints ! i = (end_x, end_y))"
    if "i < nat steps" for i
  proof -
    have i: "0 \<le> int i" "int i < steps" using that by simp_all
    from drag_waypoint_in_box [OF assms(1-4) i] obtain cx cy where
      c: "drag_waypoint start_x start_y end_x end_y steps (int i) = Inr (cx, cy)"
        "min start_x end_x \<le> cx" "cx \<le> max start_x end_x"
        "min start_y end_y \<le> cy" "cy \<le> max start_y end_y"
        "int i + 1 = steps \<longrightarrow> cx = end_x \<and> cy = end_y"
      by blast
    have w: "waypoints ! i = (cx, cy)" using that c(1) by (simp add: waypoints_def)
    have "\<bar>cx\<bar> \<le> 2 ^ 52" using c(2,3) assms(1,3) by (auto simp: min_def max_def split: if_splits)
    moreover have "\<bar>cy\<bar> \<le> 2 ^ 52" using c(4,5) assms(2,4) by (auto simp: min_def max_def split: if_splits)
    ultimately show ?thesis using c(1,6) w by simp
  qed
  have "waypoints \<noteq> []" using assms(5) len by auto
  then have "last waypoints = waypoints ! (nat steps - 1)" by (simp add: last_conv_nth len)
  moreover have "nat steps - 1 < nat steps" "int (nat steps - 1) + 1 = steps" using assms(5) by simp_all
  ultimately have "last waypoints = (end_x, end_y)" using each [of "nat steps - 1"] by simp
  with len each show ?thesis by blast
qed

lemma fl_twentieth_nonneg: "0 \<le> fl (1 / 20)"
  by (rule fl_nonneg) simp

lemma Drag_script_ok:
  assumes "\<forall>s. fst (get_system_metrics P 0 s) \<noteq> 0 \<and> fst (get_system_metrics P 1 s) \<noteq> 0"
    and "\<bar>sx\<bar> \<le> 2 ^ 52" "\<bar>sy\<bar> \<le> 2 ^ 52" "\<bar>ex\<bar> \<le> 2 ^ 52" "\<bar>ey\<bar> \<le> 2 ^ 52"
    and "\<forall>i < length waypoints. \<bar>fst (waypoints ! i)\<bar> \<le> 2 ^ 52 \<and> \<bar>snd (waypoints ! i)\<bar> \<le> 2 ^ 52"
    and "0 \<le> pause"
  shows "fst (perform_all P (Drag_script sx sy ex ey waypoints pause) w) = Inr ()"
  unfolding perform_all_def
proof (rule py_for_ok, intro ballI allI)
  fix a u
  assume "a \<in> set (Drag_script sx sy ex ey waypoints pause)"
  then consider "a = MoveTo sx sy" | "a = Wait (fl (1 / 20))" | "a = ButtonDown" | "a = ButtonUp"
    | "a = MoveTo ex ey" | "a = Wait pause"
    | x y where "(x, y) \<in> set waypoints" "a = MoveTo x y"
    by (auto simp: Drag_script_def)
  then show "fst (perform P a u) = Inr ()"
  proof cases
    case 1
    then show ?thesis using move_mouse_ok [OF assms(1,2,3)] by simp
  next
    case 2
    then show ?thesis using time_sleep_ok [OF fl_twentieth_nonneg] by simp
  next
    case 3
    then show ?thesis by (simp add: mouse_button_ok)
  next
    case 4
    then show ?thesis by (simp add: mouse_button_ok)
  next
    case 5
    then show ?thesis using move_mouse_ok [OF assms(1,4,5)] by simp
  next
    case 6
    then show ?thesis using time_sleep_ok [OF assms(7)] by simp
  next
    case 7
    from 7(1) obtain i where "i < length waypoints" "waypoints ! i = (x, y)"
      by (auto simp: in_set_conv_nth)
    with assms(6) have "\<bar>x\<bar> \<le> 2 ^ 52" "\<bar>y\<bar> \<le> 2 ^ 52" by fastforce+
    from move_mouse_ok [OF assms(1) this] 7(2) show ?thesis by simp
  qed
qed

text \<open>
  C2 (as amended). For every call of \<^verbatim>\<open>drag\<close> with coordinates of magnitude at most
  \<open>2 ^ 52\<close> and a duration with \<open>0 \<le> duration\<close> and \<open>duration * 60 \<le> 2 ^ 53\<close>: the
  number of steps is \<open>max 10 (int (duration * 60))\<close>, the product truncated toward zero
  (not rounded to the nearest integer); the function performs exactly the script of the
  specification, whose waypoint \<open>i\<close> is computed without an exception and is, in each
  coordinate, \<open>py_int (fl (start + fl ((end - start) * fl ((i + 1) / steps))))\<close>: the
  quotient \<open>t = (i + 1) / steps\<close>, the product and the sum are each rounded to the
  nearest double, and the result is truncated toward zero; this value is within 2 of the
  exact quotient \<open>(start * steps + (end - start) * (i + 1)) / steps\<close> rounded toward
  zero, and need not be equal to it; the last waypoint of the loop and the corrective
  move after the loop are both exactly the end point, also when start equals end, so the
  pointer is last moved to \<open>(end_x, end_y)\<close>; and on a screen whose dimensions are
  not zero the whole sequence runs without an exception.
\<close>

theorem drag_lands_on_end:
  assumes "\<bar>start_x\<bar> \<le> 2 ^ 52" "\<bar>start_y\<bar> \<le> 2 ^ 52" "\<bar>end_x\<bar> \<le> 2 ^ 52" "\<bar>end_y\<bar> \<le> 2 ^ 52"
    and "0 \<le> duration" "duration * 60 \<le> 2 ^ 53"
  shows "\<exists>steps waypoints pause.
      drag_steps duration = Inr steps \<and> steps = max 10 (py_int (fl (duration * 60)))
    \<and> length waypoints = nat steps
    \<and> (\<forall>i < nat steps.
          drag_waypoint start_x start_y end_x end_y steps (int i) = Inr (waypoints ! i))
    \<and> (\<forall>i < nat steps. waypoints ! i =
         (py_int (fl (of_int start_x
                 + fl (of_int (end_x - start_x) * fl (of_int (int i + 1) / of_int steps)))),
          py_int (fl (of_int start_y
                 + fl (of_int (end_y - start_y) * fl (of_int (int i + 1) / of_int steps))))))
    \<and> (\<forall>i < nat steps.
          \<bar>fst (waypoints ! i)
             - toward_zero (start_x * steps + (end_x - start_x) * (int i + 1)) steps\<bar> \<le> 2
        \<and> \<bar>snd (waypoints ! i)
             - toward_zero (start_y * steps + (end_y - start_y) * (int i + 1)) steps\<bar> \<le> 2)
    \<and> float_div_int duration steps = Inr pause \<and> 0 \<le> pause
    \<and> drag P start_x start_y end_x end_y duration
        = perform_all P (Drag_script start_x start_y end_x end_y waypoints pause)
    \<and> last waypoints = (end_x, end_y)
    \<and> pointer_after None (Drag_script start_x start_y end_x end_y waypoints pause)
        = Some (end_x, end_y)
    \<and> ((\<forall>s. fst (get_system_metrics P 0 s) \<noteq> 0 \<and> fst (get_system_metrics P 1 s) \<noteq> 0)
         \<longrightarrow> (\<forall>w. fst (drag P start_x start_y end_x end_y duration w) = Inr ()))"
proof -
  define steps where "steps = max 10 (py_int (fl (duration * 60)))"
  from drag_steps_ok [OF assms(5,6)]
  have st: "drag_steps duration = Inr steps" "10 \<le> steps" "steps \<le> 2 ^ 53"
    by (simp_all add: steps_def)
  have "duration * 1 \<le> duration * 60" using assms(5) by (intro mult_left_mono) simp_all
  then have "duration \<le> 2 ^ 53" using assms(6) by simp
  from pause_ok [OF assms(5) this st(2,3)] obtain pause where
    pause: "float_div_int duration steps = Inr pause" "0 \<le> pause" by blast
  have "0 < steps" using st(2) by simp
  from drag_waypoints_list [OF assms(1-4) this] obtain waypoints where
    wp: "length waypoints = nat steps"
      "\<forall>i < nat steps. drag_waypoint start_x start_y end_x end_y steps (int i) = Inr (waypoints ! i)
            \<and> \<bar>fst (waypoints ! i)\<bar> \<le> 2 ^ 52 \<and> \<bar>snd (waypoints ! i)\<bar> \<le> 2 ^ 52"
      "last waypoints = (end_x, end_y)"
    by blast
  have each: "\<forall>i < nat steps.
      drag_waypoint start_x start_y end_x end_y steps (int i) = Inr (waypoints ! i)"
    using wp(2) by blast
  have "value": "\<forall>i < nat steps. waypoints ! i =
         (py_int (fl (of_int start_x
                 + fl (of_int (end_x - start_x) * fl (of_int (int i + 1) / of_int steps)))),
          py_int (fl (of_int start_y
                 + fl (of_int (end_y - start_y) * fl (of_int (int i + 1) / of_int steps)))))"
  proof (intro allI impI)
    fix i
    assume i: "i < nat steps"
    then have ii: "0 \<le> int i" "int i < steps" by simp_all
    from each i
    have "drag_waypoint start_x start_y end_x end_y steps (int i) = Inr (waypoints ! i)" by blast
    then show "waypoints ! i =
         (py_int (fl (of_int start_x
                 + fl (of_int (end_x - start_x) * fl (of_int (int i + 1) / of_int steps)))),
          py_int (fl (of_int start_y
                 + fl (of_int (end_y - start_y) * fl (of_int (int i + 1) / of_int steps)))))"
      by (simp only: drag_waypoint_value [OF assms(1-4) ii] sum.inject)
  qed
  have near: "\<forall>i < nat steps.
          \<bar>fst (waypoints ! i)
             - toward_zero (start_x * steps + (end_x - start_x) * (int i + 1)) steps\<bar> \<le> 2
        \<and> \<bar>snd (waypoints ! i)
             - toward_zero (start_y * steps + (end_y - start_y) * (int i + 1)) steps\<bar> \<le> 2"
  proof (intro allI impI conjI)
    fix i
    assume i: "i < nat steps"
    then have ii: "0 \<le> int i" "int i < steps" by simp_all
    from "value" i have w: "waypoints ! i =
         (py_int (fl (of_int start_x
                 + fl (of_int (end_x - start_x) * fl (of_int (int i + 1) / of_int steps)))),
          py_int (fl (of_int start_y
                 + fl (of_int (end_y - start_y) * fl (of_int (int i + 1) / of_int steps)))))"
      by blast
    show "\<bar>fst (waypoints ! i)
             - toward_zero (start_x * steps + (end_x - start_x) * (int i + 1)) steps\<bar> \<le> 2"
      using waypoint_near_exact [OF assms(1,3) ii] by (simp only: w fst_conv)
    show "\<bar>snd (waypoints ! i)
             - toward_zero (start_y * steps + (end_y - start_y) * (int i + 1)) steps\<bar> \<le> 2"
      using waypoint_near_exact [OF assms(2,4) ii] by (simp only: w snd_conv)
  qed
  have refine: "drag P start_x start_y end_x end_y duration
        = perform_all P (Drag_script start_x start_y end_x end_y waypoints pause)"
    using st(1) wp(1) each pause(1) by (rule drag_refines_script)
  have completes: "(\<forall>s. fst (get_system_metrics P 0 s) \<noteq> 0 \<and> fst (get_system_metrics P 1 s) \<noteq> 0)
         \<longrightarrow> (\<forall>w. fst (drag P start_x start_y end_x end_y duration w) = Inr ())"
  proof (intro impI allI)
    fix w
    assume scr: "\<forall>s. fst (get_system_metrics P 0 s) \<noteq> 0 \<and> fst (get_system_metrics P 1 s) \<noteq> 0"
    have "\<forall>i < length waypoints. \<bar>fst (waypoints ! i)\<bar> \<le> 2 ^ 52 \<and> \<bar>snd (waypoints ! i)\<bar> \<le> 2 ^ 52"
      using wp(1,2) by simp
    from Drag_script_ok [OF scr assms(1-4) this pause(2)]
    show "fst (drag P start_x start_y end_x end_y duration w) = Inr ()"
      by (simp add: refine)
  qed
  have "drag_steps duration = Inr steps \<and> steps = max 10 (py_int (fl (duration * 60)))
    \<and> length waypoints = nat steps
    \<and> (\<forall>i < nat steps.
          drag_waypoint start_x start_y end_x end_y steps (int i) = Inr (waypoints ! i))
    \<and> (\<forall>i < nat steps. waypoints ! i =
         (py_int (fl (of_int start_x
                 + fl (of_int (end_x - start_x) * fl (of_int (int i + 1) / of_int steps)))),
          py_int (fl (of_int start_y
                 + fl (of_int (end_y - start_y) * fl (of_int (int i + 1) / of_int steps))))))
    \<and> (\<forall>i < nat steps.
          \<bar>fst (waypoints ! i)
             - toward_zero (start_x * steps + (end_x - start_x) * (int i + 1)) steps\<bar> \<le> 2
        \<and> \<bar>snd (waypoints ! i)
             - toward_zero (start_y * steps + (end_y - start_y) * (int i + 1)) steps\<bar> \<le> 2)
    \<and> float_div_int duration steps = Inr pause \<and> 0 \<le> pause
    \<and> drag P start_x start_y end_x end_y duration
        = perform_all P (Drag_script start_x start_y end_x end_y waypoints pause)
    \<and> last waypoints = (end_x, end_y)
    \<and> pointer_after None (Drag_script start_x start_y end_x end_y waypoints pause)
        = Some (end_x, end_y)
    \<and> ((\<forall>s. fst (get_system_metrics P 0 s) \<noteq> 0 \<and> fst (get_system_metrics P 1 s) \<noteq> 0)
         \<longrightarrow> (\<forall>w. fst (drag P start_x start_y end_x end_y duration w) = Inr ()))"
    using st(1) steps_def wp(1) each "value" near pause refine wp(3) pointer_after_Drag_script
      completes
    by (intro conjI)
  then show ?thesis by blast
qed


lemma float_result_exact:
  assumes "fl x = x" "\<bar>x\<bar> \<le> 2 ^ 53"
  shows "float_result x = Inr x"
  using assms no_overflow_small [OF assms(2)] by (simp add: float_result_def)

lemma int_truediv_eval:
  assumes "b \<noteq> 0" "fl (of_int a / of_int b) = r" "\<bar>r\<bar> \<le> 2 ^ 53"
  shows "int_truediv a b = Inr r"
  using assms(1,2) no_overflow_small [OF assms(3)] by (simp add: int_truediv_def)

lemma float_result_eval:
  assumes "fl x = r" "\<bar>r\<bar> \<le> 2 ^ 53"
  shows "float_result x = Inr r"
  using assms(1) no_overflow_small [OF assms(2)] by (simp add: float_result_def)

lemma fl_75_4: "fl (75 / 4) = 75 / 4"
proof -
  have "fl (75 / 4) = of_int (round_half_even ((75 / 4) / 2 powi (4 - 52))) * 2 powi (4 - 52)"
    by (rule fl_eval) simp_all
  also have "(75 / 4) / (2::rat) powi (4 - 52) = of_int 5277655813324800"
    by (simp add: two_powi_values)
  also have "round_half_even (of_int 5277655813324800) = 5277655813324800"
    by (rule round_half_even_of_int)
  finally show ?thesis by (simp add: two_powi_values)
qed

lemma fl_1605_16: "fl (1605 / 16) = 1605 / 16"
proof -
  have "fl (1605 / 16) = of_int (round_half_even ((1605 / 16) / 2 powi (6 - 52))) * 2 powi (6 - 52)"
    by (rule fl_eval) simp_all
  also have "(1605 / 16) / (2::rat) powi (6 - 52) = of_int 7058864650321920"
    using two_powi_neg [of 46] by simp
  also have "round_half_even (of_int 7058864650321920) = 7058864650321920"
    by (rule round_half_even_of_int)
  finally show ?thesis using two_powi_neg [of 46] by simp
qed

lemma drag_steps_examples:
  "drag_steps (5 / 16) = Inr 18" "drag_steps (107 / 64) = Inr 100" "drag_steps 0 = Inr 10"
proof -
  have "float_result (75 / 4) = Inr (75 / 4)" by (rule float_result_exact [OF fl_75_4]) simp
  then show "drag_steps (5 / 16) = Inr 18"
    by (simp add: drag_steps_def py_int_def floor_eq_iff)
  have "float_result (1605 / 16) = Inr (1605 / 16)" by (rule float_result_exact [OF fl_1605_16]) simp
  then show "drag_steps (107 / 64) = Inr 100"
    by (simp add: drag_steps_def py_int_def floor_eq_iff)
  have "float_result 0 = Inr 0" by (rule float_result_exact) (simp_all add: fl_def)
  then show "drag_steps 0 = Inr 10"
    by (simp add: drag_steps_def py_int_def)
qed

lemma interpolate_zero: "interpolate 0 0 t = Inr 0"
proof -
  have z: "int_to_float 0 = Inr 0" using int_to_float_small [of 0] by simp
  have r: "float_result 0 = Inr 0" by (rule float_result_exact) (simp_all add: fl_def)
  show ?thesis by (simp add: interpolate_def z r py_int_def)
qed

lemma fl_p29: "fl (8162774324609023 / 2 ^ 48) = 8162774324609023 / 2 ^ 48"
proof -
  have "fl (8162774324609023 / 2 ^ 48)
      = of_int (round_half_even ((8162774324609023 / 2 ^ 48) / 2 powi (4 - 52))) * 2 powi (4 - 52)"
    by (rule fl_eval) simp_all
  also have "(8162774324609023 / 2 ^ 48) / (2::rat) powi (4 - 52) = of_int 8162774324609023"
    by (simp add: two_powi_values)
  also have "round_half_even (of_int 8162774324609023) = 8162774324609023"
    by (rule round_half_even_of_int)
  finally show ?thesis by (simp add: two_powi_values)
qed

lemma drag_waypoint_28_of_100: "drag_waypoint 0 0 100 0 100 28 = Inr (28, 0)"
proof -
  have t: "int_truediv (28 + 1) 100 = Inr (5224175567749775 / 2 ^ 54)"
    by (rule int_truediv_eval) (simp_all add: fl_29_100)
  have d: "int_to_float (100 - 0) = Inr 100" using int_to_float_small [of 100] by simp
  have z: "int_to_float 0 = Inr 0" using int_to_float_small [of 0] by simp
  have p: "float_result (100 * (5224175567749775 / 2 ^ 54)) = Inr (8162774324609023 / 2 ^ 48)"
    by (rule float_result_eval [OF fl_100_times_t]) simp
  have v: "float_result (0 + 8162774324609023 / 2 ^ 48) = Inr (8162774324609023 / 2 ^ 48)"
    using float_result_eval [OF fl_p29] by simp
  have "py_int (8162774324609023 / 2 ^ 48) = 28" by (simp add: py_int_def floor_eq_iff)
  then have "interpolate 0 100 (5224175567749775 / 2 ^ 54) = Inr 28"
    unfolding interpolate_def d z by (simp only: p v sum.case)
  then show ?thesis
    unfolding drag_waypoint_def t by (simp only: interpolate_zero sum.case)
qed

lemma fl_minus_tenth: "fl (- 1 / 10) = - 7205759403792794 / 2 ^ 56"
proof -
  have "fl (- 1 / 10)
      = of_int (round_half_even ((- 1 / 10) / 2 powi (- 4 - 52))) * 2 powi (- 4 - 52)"
    by (rule fl_eval) (simp_all add: two_powi_neg [of 4, simplified] two_powi_neg [of 3, simplified])
  also have "(- 1 / 10) / (2::rat) powi (- 4 - 52) = - 36028797018963968 / 5"
    using two_powi_neg [of 56] by simp
  also have "round_half_even (- 36028797018963968 / 5) = - 7205759403792794"
    by (rule round_half_even_nearest) simp_all
  finally show ?thesis using two_powi_neg [of 56] by simp
qed

lemma drag_negative_duration:
  "fst (drag demo_platform 0 0 100 50 (- 1) demo_world) = Inl ValueError"
proof -
  have scr: "\<forall>s. fst (get_system_metrics demo_platform 0 s) \<noteq> 0
               \<and> fst (get_system_metrics demo_platform 1 s) \<noteq> 0"
    by (simp add: demo_platform_def)
  have b: "\<bar>0 :: int\<bar> \<le> 2 ^ 52" "\<bar>100 :: int\<bar> \<le> 2 ^ 52" "\<bar>50 :: int\<bar> \<le> 2 ^ 52" by simp_all
  note P = demo_platform_def
  have st: "drag_steps (- 1) = Inr 10"
  proof -
    have "fl (- 1 * 60) = - 60" using fl_of_int [of "- 60"] by simp
    then have "float_result (- 1 * 60) = Inr (- 60)" by (rule float_result_eval) simp
    then show ?thesis by (simp add: drag_steps_def py_int_def)
  qed
  from drag_waypoint_in_box [OF b(1) b(1) b(2) b(3), of 0 10] obtain cx cy where
    c: "drag_waypoint 0 0 100 50 10 0 = Inr (cx, cy)"
       "min 0 100 \<le> cx" "cx \<le> max 0 100" "min 0 50 \<le> cy" "cy \<le> max 0 50"
    by auto
  have cb: "\<bar>cx\<bar> \<le> 2 ^ 52" "\<bar>cy\<bar> \<le> 2 ^ 52" using c(2-5) by simp_all
  define pz :: rat where "pz = - 7205759403792794 / 2 ^ 56"
  have pz: "pz < 0" by (simp add: pz_def)
  have pause: "float_div_int (- 1) 10 = Inr pz"
  proof -
    have ten: "int_to_float 10 = Inr 10" using int_to_float_small [of 10] by simp
    have "float_result (- 1 / 10) = Inr pz"
      unfolding pz_def by (rule float_result_eval [OF fl_minus_tenth]) simp
    then show ?thesis by (simp add: float_div_int_def ten)
  qed
  have neg: "time_sleep demo_platform pz u = (Inl ValueError, u)" for u
    using pz by (simp add: time_sleep_def py_raise_def)
  have body0: "fst (drag_body demo_platform 0 0 100 50 (- 1) 10 0 u) = Inl ValueError" for u
  proof -
    obtain u1 where "move_mouse demo_platform cx cy u = (Inr (), u1)"
      using move_mouse_ok [OF scr cb, of u] by (cases "move_mouse demo_platform cx cy u") simp
    then show ?thesis
      by (simp add: drag_body_def c(1) pause py_bind_def lift_def neg)
  qed
  have loop: "fst (py_for (map int [0..<10]) (drag_body demo_platform 0 0 100 50 (- 1) 10) u)
                = Inl ValueError" for u
  proof -
    have "map int [0..<10] = 0 # map int [1..<10]" by (simp add: upt_conv_Cons)
    moreover obtain u1 where "drag_body demo_platform 0 0 100 50 (- 1) 10 0 u = (Inl ValueError, u1)"
      using body0 [of u] by (cases "drag_body demo_platform 0 0 100 50 (- 1) 10 0 u") simp
    ultimately show ?thesis by (simp add: py_bind_def)
  qed
  obtain w1 where w1: "move_mouse demo_platform 0 0 demo_world = (Inr (), w1)"
    using move_mouse_ok [OF scr b(1) b(1), of demo_world]
    by (cases "move_mouse demo_platform 0 0 demo_world") simp
  obtain w2 where w2: "time_sleep demo_platform (fl (1 / 20)) w1 = (Inr (), w2)"
    using time_sleep_ok [OF fl_twentieth_nonneg, of demo_platform w1]
    by (cases "time_sleep demo_platform (fl (1 / 20)) w1") simp
  obtain w3 where w3: "mouse_down demo_platform True w2 = (Inr (), w3)"
    using mouse_button_ok(1) [of demo_platform True w2]
    by (cases "mouse_down demo_platform True w2") simp
  obtain w4 where w4: "time_sleep demo_platform (fl (1 / 20)) w3 = (Inr (), w4)"
    using time_sleep_ok [OF fl_twentieth_nonneg, of demo_platform w3]
    by (cases "time_sleep demo_platform (fl (1 / 20)) w3") simp
  obtain e5 w5 where w5: "py_for (map int [0..<10]) (drag_body demo_platform 0 0 100 50 (- 1) 10) w4
      = (Inl ValueError, w5)"
    using loop [of w4]
    by (cases "py_for (map int [0..<10]) (drag_body demo_platform 0 0 100 50 (- 1) 10) w4") simp
  show ?thesis
    unfolding drag_def st py_bind_lift_Inr
    by (simp add: py_bind_def w1 w2 w3 w4 w5 del: py_for.simps upt.simps)
qed

text \<open>
  The claim as stated fails. With \<open>duration = 0.3125\<close> the product
  \<open>duration * 60\<close> is 18.75: the code takes 18 steps, rounding gives 19. With 100 steps
  (\<open>duration = 1.671875\<close>) from 0 to 100, step 28 has \<open>t = 29 / 100\<close>, which is not a
  double: the product \<open>100 * t\<close> is the double just below 29 and the code emits 28,
  where the exact quotient rounded toward zero is 29. And a call with the negative
  duration \<open>- 1\<close> never reaches the corrective move: the pause \<open>duration / steps\<close>
  of the first step is negative and \<^verbatim>\<open>time.sleep\<close> raises.
\<close>

theorem drag_round_counterexample:
  "drag_steps (5 / 16) = Inr 18 \<and> max 10 (round ((5 / 16 :: rat) * 60)) = 19
   \<and> drag_steps (107 / 64) = Inr 100
   \<and> drag_waypoint 0 0 100 0 100 28 = Inr (28, 0)
   \<and> py_int (0 + (100 - 0) * ((28 + 1) / 100)) = 29
   \<and> fst (drag demo_platform 0 0 100 50 (- 1) demo_world) = Inl ValueError"
proof -
  have "round ((5 / 16 :: rat) * 60) = 19" by (simp add: round_def floor_eq_iff)
  moreover have "py_int (0 + (100 - 0) * ((28 + 1) / 100)) = 29" by (simp add: py_int_def)
  ultimately show ?thesis
    using drag_steps_examples(1,2) drag_waypoint_28_of_100 drag_negative_duration by simp
qed

theorem drag_lands_on_end_witness:
  "drag_steps (5 / 16) = Inr 18
   \<and> drag_waypoint 0 0 100 50 18 17 = Inr (100, 50)
   \<and> fst (drag demo_platform 0 0 100 50 (5 / 16) demo_world) = Inr ()
   \<and> py_int (fl (of_int 0 + fl (of_int (100 - 0) * fl (of_int (28 + 1) / of_int 100)))) = 28
   \<and> \<bar>28 - toward_zero (0 * 100 + (100 - 0) * (28 + 1)) 100\<bar> \<le> 2"
proof -
  have step28: "py_int (fl (of_int 0 + fl (of_int (100 - 0) * fl (of_int (28 + 1) / of_int 100)))) = 28
      \<and> \<bar>28 - toward_zero (0 * 100 + (100 - 0) * (28 + 1)) 100\<bar> \<le> 2"
  proof -
    have b: "\<bar>0 :: int\<bar> \<le> 2 ^ 52" "\<bar>100 :: int\<bar> \<le> 2 ^ 52" by simp_all
    have d: "(0 :: rat) \<le> 107 / 64" "(107 / 64 :: rat) * 60 \<le> 2 ^ 53" by simp_all
    from drag_lands_on_end [OF b(1) b(1) b(2) b(1) d, of demo_platform]
    obtain steps waypoints pause where
      r: "drag_steps (107 / 64) = Inr steps"
         "\<forall>i < nat steps. drag_waypoint 0 0 100 0 steps (int i) = Inr (waypoints ! i)"
         "\<forall>i < nat steps. waypoints ! i =
           (py_int (fl (of_int 0 + fl (of_int (100 - 0) * fl (of_int (int i + 1) / of_int steps)))),
            py_int (fl (of_int 0 + fl (of_int (0 - 0) * fl (of_int (int i + 1) / of_int steps)))))"
         "\<forall>i < nat steps.
            \<bar>fst (waypoints ! i) - toward_zero (0 * steps + (100 - 0) * (int i + 1)) steps\<bar> \<le> 2
          \<and> \<bar>snd (waypoints ! i) - toward_zero (0 * steps + (0 - 0) * (int i + 1)) steps\<bar> \<le> 2"
      by blast
    have s: "steps = 100" using r(1) drag_steps_examples(2) by simp
    have i: "(28 :: nat) < nat steps" using s by simp
    from r(2) i have "drag_waypoint 0 0 100 0 steps (int 28) = Inr (waypoints ! 28)" by blast
    then have w: "waypoints ! 28 = (28, 0)" using drag_waypoint_28_of_100 by (simp add: s)
    from r(3) i have "waypoints ! 28 =
           (py_int (fl (of_int 0 + fl (of_int (100 - 0) * fl (of_int (int 28 + 1) / of_int steps)))),
            py_int (fl (of_int 0 + fl (of_int (0 - 0) * fl (of_int (int 28 + 1) / of_int steps)))))"
      by blast
    with w have v: "py_int (fl (of_int 0 + fl (of_int (100 - 0) * fl (of_int (28 + 1) / of_int 100)))) = 28"
      by (simp add: s)
    from r(4) i
    have "\<bar>fst (waypoints ! 28) - toward_zero (0 * steps + (100 - 0) * (int 28 + 1)) steps\<bar> \<le> 2"
      by blast
    then have "\<bar>28 - toward_zero (0 * 100 + (100 - 0) * (28 + 1)) 100\<bar> \<le> 2"
      by (simp add: w s)
    with v show ?thesis by (rule conjI)
  qed
  have scr: "\<forall>s. fst (get_system_metrics demo_platform 0 s) \<noteq> 0
               \<and> fst (get_system_metrics demo_platform 1 s) \<noteq> 0"
    by (simp add: demo_platform_def)
  have b: "\<bar>0 :: int\<bar> \<le> 2 ^ 52" "\<bar>100 :: int\<bar> \<le> 2 ^ 52" "\<bar>50 :: int\<bar> \<le> 2 ^ 52" by simp_all
  have d: "(0 :: rat) \<le> 5 / 16" "(5 / 16 :: rat) * 60 \<le> 2 ^ 53" by simp_all
  from drag_lands_on_end [OF b(1) b(1) b(2) b(3) d, of demo_platform]
  obtain steps waypoints pause where
    r: "drag_steps (5 / 16) = Inr steps" "length waypoints = nat steps"
       "\<forall>i < nat steps. drag_waypoint 0 0 100 50 steps (int i) = Inr (waypoints ! i)"
       "last waypoints = (100, 50)"
       "(\<forall>s. fst (get_system_metrics demo_platform 0 s) \<noteq> 0
             \<and> fst (get_system_metrics demo_platform 1 s) \<noteq> 0)
         \<longrightarrow> (\<forall>w. fst (drag demo_platform 0 0 100 50 (5 / 16) w) = Inr ())"
    by blast
  have s: "steps = 18" using r(1) drag_steps_examples(1) by simp
  have "waypoints \<noteq> []" using r(2) s by auto
  then have "last waypoints = waypoints ! 17" using r(2) s by (simp add: last_conv_nth)
  moreover have "drag_waypoint 0 0 100 50 18 (int 17) = Inr (waypoints ! 17)"
  proof -
    have "(17 :: nat) < nat steps" using s by simp
    with r(3) have "drag_waypoint 0 0 100 50 steps (int 17) = Inr (waypoints ! 17)" by blast
    then show ?thesis by (simp only: s)
  qed
  ultimately have "drag_waypoint 0 0 100 50 18 17 = Inr (100, 50)" using r(4) by simp
  moreover have "fst (drag demo_platform 0 0 100 50 (5 / 16) demo_world) = Inr ()"
    using r(5) scr by blast
  ultimately have "drag_steps (5 / 16) = Inr 18
   \<and> drag_waypoint 0 0 100 50 18 17 = Inr (100, 50)
   \<and> fst (drag demo_platform 0 0 100 50 (5 / 16) demo_world) = Inr ()"
    using drag_steps_examples(1) by simp
  with step28 show ?thesis by (simp only: conj_assoc)
qed






end
